theory Spec2Isabelle
  imports Main "HOL-Library.Sublist"
begin

section \<open>Python values and the operators the command applies to them\<close>

text \<open>
  The collaborators of \<open>ota_upgrade\<close> (session, node, service) hand back decoded JSON:
  \<open>None\<close>, booleans, integers, strings, lists and dictionaries keyed by strings.
\<close>

datatype pyval =
    PNone
  | PBool bool
  | PInt int
  | PStr string
  | PList "pyval list"
  | PDict "(string \<times> pyval) list"

text \<open>
  The exception classes that reach the handlers of \<open>ota_upgrade\<close>. All of them derive from
  \<open>Exception\<close>; \<open>SSLError\<close>, \<open>NetworkError\<close> and \<open>RequestTimeoutError\<close> are the library's own
  classes, unrelated to each other by inheritance.
\<close>

datatype exn =
    KeyError
  | TypeError
  | OSError
  | SSLError
  | NetworkError
  | RequestTimeoutError
  | InvalidJSONError
  | OtherError

text \<open>Python truth value testing (\<open>not x\<close>, \<open>if x\<close>).\<close>

fun truthy :: "pyval \<Rightarrow> bool" where
  "truthy PNone = False"
| "truthy (PBool b) = b"
| "truthy (PInt i) = (i \<noteq> 0)"
| "truthy (PStr s) = (s \<noteq> [])"
| "truthy (PList xs) = (xs \<noteq> [])"
| "truthy (PDict kvs) = (kvs \<noteq> [])"

text \<open>\<open>str.find\<close>: the index of the leftmost occurrence of \<open>sep\<close>, if there is one.\<close>

fun find_sub :: "string \<Rightarrow> string \<Rightarrow> nat option" where
  "find_sub sep [] = (if sep = [] then Some 0 else None)"
| "find_sub sep (c # cs) =
     (if prefix sep (c # cs) then Some 0 else map_option Suc (find_sub sep cs))"

text \<open>
  \<open>key in x\<close> for a string key: substring test on a string, element test on a list, key
  test on a dictionary, \<open>TypeError\<close> on a value that is not iterable.
\<close>

fun py_in :: "string \<Rightarrow> pyval \<Rightarrow> exn + bool" where
  "py_in k PNone = Inl TypeError"
| "py_in k (PBool b) = Inl TypeError"
| "py_in k (PInt i) = Inl TypeError"
| "py_in k (PStr s) = Inr (find_sub k s \<noteq> None)"
| "py_in k (PList xs) = Inr (PStr k \<in> set xs)"
| "py_in k (PDict kvs) = Inr (k \<in> fst ` set kvs)"

text \<open>\<open>x[key]\<close> for a string key: defined on dictionaries only.\<close>

fun py_getitem :: "pyval \<Rightarrow> string \<Rightarrow> exn + pyval" where
  "py_getitem (PDict kvs) k = (case map_of kvs k of None \<Rightarrow> Inl KeyError | Some v \<Rightarrow> Inr v)"
| "py_getitem v k = Inl TypeError"

text \<open>
  \<open>x in [None, False]\<close>: list membership compares by identity or \<open>==\<close>, and the values
  equal to \<open>False\<close> are \<open>False\<close> itself and the integer \<open>0\<close>.
\<close>

fun in_none_false :: "pyval \<Rightarrow> bool" where
  "in_none_false PNone = True"
| "in_none_false (PBool b) = (\<not> b)"
| "in_none_false (PInt i) = (i = 0)"
| "in_none_false v = False"

section \<open>Path and file-name handling\<close>

text \<open>\<open>os.path.isabs\<close> and the two-argument \<open>os.path.join\<close> of \<open>posixpath\<close>.\<close>

definition isabs :: "string \<Rightarrow> bool" where
  "isabs p = prefix ''/'' p"

definition path_join :: "string \<Rightarrow> string \<Rightarrow> string" where
  "path_join a b =
     (if prefix ''/'' b then b
      else if a = [] \<or> last a = CHR ''/'' then a @ b
      else a @ ''/'' @ b)"

lemma find_sub_bound: "find_sub sep s = Some i \<Longrightarrow> i + length sep \<le> length s"
proof (induction s arbitrary: i)
  case Nil
  then show ?case by (simp split: if_splits)
next
  case (Cons c cs)
  then show ?case by (auto split: if_splits dest: prefix_length_le)
qed

text \<open>\<open>str.split(sep)\<close> for a non-empty separator (an empty one raises \<open>ValueError\<close>).\<close>

function py_split :: "string \<Rightarrow> string \<Rightarrow> string list" where
  "py_split sep s =
     (if sep = [] then [s]
      else (case find_sub sep s of
              None \<Rightarrow> [s]
            | Some i \<Rightarrow> take i s # py_split sep (drop (i + length sep) s)))"
  by pat_completeness auto
termination
proof (relation "measure (\<lambda>(sep, s). length s)")
  show "wf (measure (\<lambda>(sep, s). length s))" by simp
next
  fix sep s :: string and i :: nat
  assume ne: "sep \<noteq> []" and found: "find_sub sep s = Some i"
  have le: "i + length sep \<le> length s"
    by (rule find_sub_bound [OF found])
  have pos: "0 < length sep"
    using ne by simp
  have "length s - (i + length sep) < length s"
    using le pos by arith
  then show "((sep, drop (i + length sep) s), (sep, s)) \<in> measure (\<lambda>(sep, s). length s)"
    by simp
qed

declare py_split.simps [simp del]

text \<open>
  Lines 323--325: the path that is opened and the name under which the image is uploaded,
  \<open>img_file_path.split('/')[-1].split('.bin')[0]\<close>. Both splits return at least one
  element, so the two subscripts never raise.
\<close>

definition abs_img_path :: "string \<Rightarrow> string \<Rightarrow> string" where
  "abs_img_path cwd p = (if \<not> isabs p then path_join cwd p else p)"

definition image_name :: "string \<Rightarrow> string" where
  "image_name img_file_path = hd (py_split ''.bin'' (last (py_split ''/'' img_file_path)))"

text \<open>
  The rule in words, for comparison with \<open>image_name\<close>: the last \<open>/\<close>-separated component
  of a path is what follows its last \<open>/\<close>.
\<close>

definition last_component :: "string \<Rightarrow> string" where
  "last_component p = rev (takeWhile (\<lambda>c. c \<noteq> CHR ''/'') (rev p))"

section \<open>Collaborators, local variables and the event trace\<close>

datatype step =
    NewSession
  | NewNode
  | NewService
  | VerifyService
  | UploadImage
  | GetServiceParams
  | GetNodeParams
  | StartOta
  | CheckOtaStatus

datatype logmsg =
    ServiceNotFound
  | SSLFailure
  | LoopFatal exn
  | SessionInitFailed
  | UpgradeFailed
  | StartOtaFailed
  | KeyErrorMsg
  | Unhandled exn

text \<open>
  What a run does to the outside world, in order: opening and reading the image file,
  calls of the collaborators, \<open>time.sleep\<close>, the records logged at level error and warning,
  the "Retries left" line and the info record that follows a successful upload. The other
  info and debug records and progress prints do not influence control flow and are left
  out of the trace.
\<close>

datatype event =
    ReadFile string
  | Call step
  | Sleep nat
  | Warn exn
  | RetriesLeft nat
  | Error logmsg
  | InfoUploadSuccess

text \<open>
  The collaborators are scripted by invocation number: the \<open>k\<close>-th call of a sub-step
  (counting from 0) returns a value or raises. A pair returned by a collaborator is
  unpacked by the caller; a result that cannot be unpacked is a raised \<open>TypeError\<close>.
  The file system answers per path.
\<close>

record env =
  cwd :: string
  read_file :: "string \<Rightarrow> exn + string"
  new_session :: "nat \<Rightarrow> exn + unit"
  new_node :: "nat \<Rightarrow> exn + unit"
  new_service :: "nat \<Rightarrow> exn + unit"
  verify_service_exists :: "nat \<Rightarrow> exn + (pyval \<times> pyval)"
  upload_ota_image :: "string \<Rightarrow> nat \<Rightarrow> exn + (pyval \<times> pyval)"
  get_service_params :: "nat \<Rightarrow> exn + (pyval \<times> pyval)"
  get_node_params :: "nat \<Rightarrow> exn + pyval"
  start_ota :: "nat \<Rightarrow> exn + pyval"
  check_ota_status :: "nat \<Rightarrow> exn + pyval"

text \<open>
  The local variables of \<open>ota_upgrade\<close> that the loops read and write, and the trace.
  The three objects are instances of classes without \<open>__bool__\<close> or \<open>__len__\<close>, so their
  truth value is whether they have been created.
\<close>

record locals =
  curr_session :: bool
  node_object :: bool
  service_obj :: bool
  service_config :: pyval
  service_name :: pyval
  status :: pyval
  response :: pyval
  param_url_to_set :: pyval
  service_read_params :: pyval
  service_write_params :: pyval
  node_params :: pyval
  ota_start_status :: pyval
  ota_status :: pyval
  trace :: "event list"

definition init_locals :: locals where
  "init_locals =
     \<lparr>curr_session = False, node_object = False, service_obj = False,
      service_config = PNone, service_name = PNone, status = PNone, response = PNone,
      param_url_to_set = PNone, service_read_params = PNone, service_write_params = PNone,
      node_params = PNone, ota_start_status = PNone, ota_status = PNone, trace = []\<rparr>"

definition emit :: "event \<Rightarrow> locals \<Rightarrow> locals" where
  "emit e s = s\<lparr>trace := trace s @ [e]\<rparr>"

definition ncalls :: "step \<Rightarrow> locals \<Rightarrow> nat" where
  "ncalls st s = count_list (trace s) (Call st)"

text \<open>How a block of statements ends: it runs to its end, hits \<open>break\<close>, or raises.\<close>

datatype flow = Next | Brk | Raise exn

fun seqs :: "(locals \<Rightarrow> flow \<times> locals) list \<Rightarrow> locals \<Rightarrow> flow \<times> locals" where
  "seqs [] s = (Next, s)"
| "seqs (f # fs) s = (case f s of (Next, s') \<Rightarrow> seqs fs s' | r \<Rightarrow> r)"

section \<open>Phase A: the guarded sub-steps of the upload loop (lines 344--367)\<close>

definition ensure_session :: "env \<Rightarrow> locals \<Rightarrow> flow \<times> locals" where
  "ensure_session env s =
     (if \<not> curr_session s then
        (case new_session env (ncalls NewSession s) of
           Inl e \<Rightarrow> (Raise e, emit (Call NewSession) s)
         | Inr u \<Rightarrow> (Next, (emit (Call NewSession) s)\<lparr>curr_session := True\<rparr>))
      else (Next, s))"

definition ensure_node :: "env \<Rightarrow> locals \<Rightarrow> flow \<times> locals" where
  "ensure_node env s =
     (if \<not> node_object s then
        (case new_node env (ncalls NewNode s) of
           Inl e \<Rightarrow> (Raise e, emit (Call NewNode) s)
         | Inr u \<Rightarrow> (Next, (emit (Call NewNode) s)\<lparr>node_object := True\<rparr>))
      else (Next, s))"

definition ensure_service_obj :: "env \<Rightarrow> locals \<Rightarrow> flow \<times> locals" where
  "ensure_service_obj env s =
     (if \<not> service_obj s then
        (case new_service env (ncalls NewService s) of
           Inl e \<Rightarrow> (Raise e, emit (Call NewService) s)
         | Inr u \<Rightarrow> (Next, (emit (Call NewService) s)\<lparr>service_obj := True\<rparr>))
      else (Next, s))"

definition ensure_service_config :: "env \<Rightarrow> locals \<Rightarrow> flow \<times> locals" where
  "ensure_service_config env s =
     (if \<not> truthy (service_config s) \<and> \<not> truthy (service_name s) then
        (case verify_service_exists env (ncalls VerifyService s) of
           Inl e \<Rightarrow> (Raise e, emit (Call VerifyService) s)
         | Inr (cfg, nm) \<Rightarrow>
             (let s' = (emit (Call VerifyService) s)\<lparr>service_config := cfg, service_name := nm\<rparr>
              in if \<not> truthy cfg then (Brk, emit (Error ServiceNotFound) s') else (Next, s')))
      else (Next, s))"

definition ensure_upload :: "env \<Rightarrow> string \<Rightarrow> locals \<Rightarrow> flow \<times> locals" where
  "ensure_upload env img_name s =
     (if \<not> truthy (status s) \<and> \<not> truthy (response s) then
        (case upload_ota_image env img_name (ncalls UploadImage s) of
           Inl e \<Rightarrow> (Raise e, emit (Call UploadImage) s)
         | Inr (st, resp) \<Rightarrow>
             (let s' = (emit (Call UploadImage) s)\<lparr>status := st, response := resp\<rparr>
              in if truthy st then (Brk, s') else (Next, s')))
      else (Next, s))"

definition phaseA_try :: "env \<Rightarrow> string \<Rightarrow> locals \<Rightarrow> flow \<times> locals" where
  "phaseA_try env img_name =
     seqs [ensure_session env, ensure_node env, ensure_service_obj env,
           ensure_service_config env, ensure_upload env img_name]"

section \<open>Phase B: the guarded sub-steps of the activation loop (lines 408--432)\<close>

definition ensure_service_params :: "env \<Rightarrow> locals \<Rightarrow> flow \<times> locals" where
  "ensure_service_params env s =
     (if \<not> truthy (service_read_params s) \<and> \<not> truthy (service_write_params s) then
        (case get_service_params env (ncalls GetServiceParams s) of
           Inl e \<Rightarrow> (Raise e, emit (Call GetServiceParams) s)
         | Inr (r, w) \<Rightarrow>
             (Next, (emit (Call GetServiceParams) s)
                      \<lparr>service_read_params := r, service_write_params := w\<rparr>))
      else (Next, s))"

definition ensure_node_params :: "env \<Rightarrow> locals \<Rightarrow> flow \<times> locals" where
  "ensure_node_params env s =
     (if \<not> truthy (node_params s) then
        (case get_node_params env (ncalls GetNodeParams s) of
           Inl e \<Rightarrow> (Raise e, emit (Call GetNodeParams) s)
         | Inr v \<Rightarrow> (Next, (emit (Call GetNodeParams) s)\<lparr>node_params := v\<rparr>))
      else (Next, s))"

definition ensure_start :: "env \<Rightarrow> locals \<Rightarrow> flow \<times> locals" where
  "ensure_start env s =
     (if \<not> truthy (ota_start_status s) then
        (case start_ota env (ncalls StartOta s) of
           Inl e \<Rightarrow> (Raise e, emit (Call StartOta) s)
         | Inr v \<Rightarrow>
             (let s' = (emit (Call StartOta) s)\<lparr>ota_start_status := v\<rparr>
              in if \<not> truthy v then (Brk, emit (Error StartOtaFailed) s') else (Next, s')))
      else (Next, s))"

definition ensure_status :: "env \<Rightarrow> locals \<Rightarrow> flow \<times> locals" where
  "ensure_status env s =
     (if \<not> truthy (ota_status s) then
        (case check_ota_status env (ncalls CheckOtaStatus s) of
           Inl e \<Rightarrow> (Raise e, emit (Call CheckOtaStatus) s)
         | Inr v \<Rightarrow> (Brk, (emit (Call CheckOtaStatus) s)\<lparr>ota_status := v\<rparr>))
      else (Next, s))"

definition phaseB_try :: "env \<Rightarrow> locals \<Rightarrow> flow \<times> locals" where
  "phaseB_try env s =
     (case py_in ''image_url'' (response s) of
        Inl e \<Rightarrow> (Raise e, s)
      | Inr False \<Rightarrow> (Next, s)
      | Inr True \<Rightarrow>
          (case py_getitem (response s) ''image_url'' of
             Inl e \<Rightarrow> (Raise e, s)
           | Inr url \<Rightarrow>
               seqs [ensure_service_params env, ensure_node_params env,
                     ensure_start env, ensure_status env]
                    (s\<lparr>param_url_to_set := url\<rparr>)))"

section \<open>The retry loop shared by both phases (lines 340--381 and 406--446)\<close>

definition MAX_HTTP_CONNECTION_RETRIES :: nat where
  "MAX_HTTP_CONNECTION_RETRIES = 5"

text \<open>
  The tail of an iteration that did not leave the loop: \<open>time.sleep(5)\<close>, \<open>retries -= 1\<close>,
  and the "Retries left" line when the new count is not zero. The argument is the new
  value of \<open>retries\<close>.
\<close>

definition backoff :: "nat \<Rightarrow> locals \<Rightarrow> locals" where
  "backoff n s = (if n \<noteq> 0 then emit (RetriesLeft n) (emit (Sleep 5) s) else emit (Sleep 5) s)"

text \<open>
  \<open>while retries > 0\<close> with its three handlers, in the order of the source: \<open>SSLError\<close>
  breaks, \<open>NetworkError\<close> and \<open>RequestTimeoutError\<close> warn and fall through to the tail,
  any other exception breaks. The first argument of the loop is the value of \<open>retries\<close>.
\<close>

fun retry_loop :: "(locals \<Rightarrow> flow \<times> locals) \<Rightarrow> nat \<Rightarrow> locals \<Rightarrow> locals" where
  "retry_loop body 0 s = s"
| "retry_loop body (Suc n) s =
     (case body s of
        (Brk, s1) \<Rightarrow> s1
      | (Raise e, s1) \<Rightarrow>
          (if e = SSLError then emit (Error SSLFailure) s1
           else if e = NetworkError \<or> e = RequestTimeoutError
                then retry_loop body n (backoff n (emit (Warn e) s1))
           else emit (Error (LoopFatal e)) s1)
      | (Next, s1) \<Rightarrow> retry_loop body n (backoff n s1))"

section \<open>The command\<close>

text \<open>Lines 399--404: the variables of Phase B start out as \<open>None\<close>.\<close>

definition enter_phaseB :: "locals \<Rightarrow> locals" where
  "enter_phaseB s =
     s\<lparr>ota_start_status := PNone, node_params := PNone, service_read_params := PNone,
       service_write_params := PNone, ota_status := PNone\<rparr>"

text \<open>Lines 399--451: Phase B and the final check of the polled status.\<close>

definition run_phaseB :: "env \<Rightarrow> locals \<Rightarrow> flow \<times> locals" where
  "run_phaseB env s =
     (let s2 = retry_loop (phaseB_try env) MAX_HTTP_CONNECTION_RETRIES (enter_phaseB s)
      in if in_none_false (ota_status s2) then (Next, emit (Error UpgradeFailed) s2)
         else (Next, s2))"

text \<open>Lines 383--396: the checks between the two loops.\<close>

definition after_phaseA :: "env \<Rightarrow> locals \<Rightarrow> flow \<times> locals" where
  "after_phaseA env s1 =
     (if \<not> node_object s1 then (Next, emit (Error SessionInitFailed) s1)
      else if \<not> truthy (status s1) then (Next, emit (Error UpgradeFailed) s1)
      else (case py_in ''success'' (status s1) of
              Inl e \<Rightarrow> (Raise e, s1)
            | Inr False \<Rightarrow> (Next, emit (Error UpgradeFailed) s1)
            | Inr True \<Rightarrow> run_phaseB env (emit InfoUploadSuccess s1)))"

text \<open>
  Lines 321--451, the body of the outer \<open>try\<close>. \<open>vars\<close> is the argument dictionary, \<open>None\<close>
  when the command is called without one.
\<close>

definition ota_upgrade_body :: "env \<Rightarrow> (string \<rightharpoonup> string) option \<Rightarrow> flow \<times> locals" where
  "ota_upgrade_body env vars =
     (case vars of
        None \<Rightarrow> (Raise TypeError, init_locals)
      | Some m \<Rightarrow>
          (case m ''nodeid'' of
             None \<Rightarrow> (Raise KeyError, init_locals)
           | Some node_id \<Rightarrow>
               (case m ''otaimagepath'' of
                  None \<Rightarrow> (Raise KeyError, init_locals)
                | Some p \<Rightarrow>
                    (let img_file_path = abs_img_path (cwd env) p;
                         img_name = image_name img_file_path;
                         s0 = emit (ReadFile img_file_path) init_locals
                     in case read_file env img_file_path of
                          Inl e \<Rightarrow> (Raise e, s0)
                        | Inr fw_img_bytes \<Rightarrow>
                            after_phaseA env
                              (retry_loop (phaseA_try env img_name)
                                 MAX_HTTP_CONNECTION_RETRIES s0)))))"

text \<open>
  Lines 452--456: the handlers of the outer \<open>try\<close>. \<open>except KeyError\<close> comes first, then
  \<open>except Exception\<close>, which matches every class deriving from \<open>Exception\<close>.
\<close>

fun is_Exception :: "exn \<Rightarrow> bool" where
  "is_Exception e = True"

definition ota_upgrade :: "env \<Rightarrow> (string \<rightharpoonup> string) option \<Rightarrow> flow \<times> locals" where
  "ota_upgrade env vars =
     (case ota_upgrade_body env vars of
        (Raise e, s) \<Rightarrow>
          (if e = KeyError then (Next, emit (Error KeyErrorMsg) s)
           else if is_Exception e then (Next, emit (Error (Unhandled e)) s)
           else (Raise e, s))
      | (f, s) \<Rightarrow> (Next, s))"

section \<open>Observations and triples for reasoning about the loops\<close>

text \<open>
  \<open>run_trace\<close> is what an invocation of the command does, in order. \<open>hoare P f B\<close> says that
  a block \<open>f\<close> started in a state satisfying \<open>P\<close> ends in a flow and state satisfying \<open>B\<close>;
  \<open>bpost I Q\<close> is the postcondition of a loop body that keeps the invariant \<open>I\<close> unless it
  breaks, and establishes \<open>Q\<close> when it does. \<open>loop_event\<close> holds of the events that the loop
  itself emits, outside its body; \<open>has_url\<close> is the test at the head of the body of Phase B.
\<close>

definition run_trace :: "env \<Rightarrow> (string \<rightharpoonup> string) option \<Rightarrow> event list" where
  "run_trace env vars = trace (snd (ota_upgrade env vars))"

definition hoare :: "(locals \<Rightarrow> bool) \<Rightarrow> (locals \<Rightarrow> flow \<times> locals) \<Rightarrow> (flow \<Rightarrow> locals \<Rightarrow> bool) \<Rightarrow> bool" where
  "hoare P f B = (\<forall>s fl s'. P s \<and> f s = (fl, s') \<longrightarrow> B fl s')"

definition bpost :: "(locals \<Rightarrow> bool) \<Rightarrow> (locals \<Rightarrow> bool) \<Rightarrow> flow \<Rightarrow> locals \<Rightarrow> bool" where
  "bpost I Q fl s = (case fl of Brk \<Rightarrow> Q s | _ \<Rightarrow> I s)"

fun loop_event :: "event \<Rightarrow> bool" where
  "loop_event (Sleep n) = True"
| "loop_event (Warn e) = True"
| "loop_event (RetriesLeft n) = True"
| "loop_event (Error SSLFailure) = True"
| "loop_event (Error (LoopFatal e)) = True"
| "loop_event e = False"

definition has_url :: "pyval \<Rightarrow> bool" where
  "has_url r = (py_in ''image_url'' r = Inr True \<and> (\<exists>u. py_getitem r ''image_url'' = Inr u))"

definition phaseA_result :: "env \<Rightarrow> string \<Rightarrow> locals" where
  "phaseA_result env p =
     retry_loop (phaseA_try env (image_name (abs_img_path (cwd env) p)))
       MAX_HTTP_CONNECTION_RETRIES (emit (ReadFile (abs_img_path (cwd env) p)) init_locals)"

definition phaseB_result :: "env \<Rightarrow> locals \<Rightarrow> locals" where
  "phaseB_result env s1 =
     retry_loop (phaseB_try env) MAX_HTTP_CONNECTION_RETRIES
       (enter_phaseB (emit InfoUploadSuccess s1))"

definition vars0 :: "string \<rightharpoonup> string" where
  "vars0 = [''nodeid'' \<mapsto> ''N1'', ''otaimagepath'' \<mapsto> ''fw.bin'']"

definition env_ok :: env where
  "env_ok =
     \<lparr>cwd = ''/home/u'',
      read_file = (\<lambda>p. Inr ''0123456789''),
      new_session = (\<lambda>k. Inr ()),
      new_node = (\<lambda>k. Inr ()),
      new_service = (\<lambda>k. Inr ()),
      verify_service_exists =
        (\<lambda>k. Inr (PDict [(''type'', PStr ''esp.service.ota'')], PStr ''ota'')),
      upload_ota_image =
        (\<lambda>nm k. Inr (PStr ''success'', PDict [(''image_url'', PStr ''https://x/y'')])),
      get_service_params = (\<lambda>k. Inr (PStr ''ota_status'', PStr ''ota_url'')),
      get_node_params = (\<lambda>k. Inr (PDict [(''ota'', PDict [(''ota_url'', PStr [])])])),
      start_ota = (\<lambda>k. Inr (PBool True)),
      check_ota_status = (\<lambda>k. Inr (PDict [(''ota_status'', PStr ''completed'')]))\<rparr>"

definition env_no_service :: env where
  "env_no_service = env_ok\<lparr>verify_service_exists := (\<lambda>k. Inr (PNone, PNone))\<rparr>"

definition env_rejected :: env where
  "env_rejected = env_ok\<lparr>start_ota := (\<lambda>k. Inr (PBool False))\<rparr>"

fun is_error :: "event \<Rightarrow> bool" where
  "is_error (Error m) = True"
| "is_error e = False"

definition failed_run :: "event list \<Rightarrow> bool" where
  "failed_run tr = list_ex is_error tr"

definition upgrade_succeeded :: "env \<Rightarrow> locals \<Rightarrow> bool" where
  "upgrade_succeeded env s =
     (truthy (status s) \<and> py_in ''success'' (status s) = Inr True \<and>
      (\<exists>k. ncalls CheckOtaStatus s = Suc k \<and> check_ota_status env k = Inr (ota_status s)) \<and>
      \<not> in_none_false (ota_status s))"

fun phaseB_step :: "step \<Rightarrow> bool" where
  "phaseB_step GetServiceParams = True"
| "phaseB_step GetNodeParams = True"
| "phaseB_step StartOta = True"
| "phaseB_step CheckOtaStatus = True"
| "phaseB_step st = False"

definition env_no_url :: env where
  "env_no_url =
     env_ok\<lparr>upload_ota_image := (\<lambda>nm k. Inr (PStr ''success'', PDict [(''status'', PStr ''ok'')]))\<rparr>"

definition vars_abs :: "string \<rightharpoonup> string" where
  "vars_abs = [''nodeid'' \<mapsto> ''N1'', ''otaimagepath'' \<mapsto> ''/tmp/fw.bin'']"

definition env_unreadable :: env where
  "env_unreadable = env_ok\<lparr>read_file := (\<lambda>p. Inl OSError)\<rparr>"

fun cached :: "step \<Rightarrow> locals \<Rightarrow> bool" where
  "cached NewSession s = curr_session s"
| "cached NewNode s = node_object s"
| "cached NewService s = service_obj s"
| "cached VerifyService s = (truthy (service_config s) \<or> truthy (service_name s))"
| "cached UploadImage s = (truthy (status s) \<or> truthy (response s))"
| "cached GetServiceParams s = (truthy (service_read_params s) \<or> truthy (service_write_params s))"
| "cached GetNodeParams s = truthy (node_params s)"
| "cached StartOta s = truthy (ota_start_status s)"
| "cached CheckOtaStatus s = truthy (ota_status s)"

fun cacheable :: "env \<Rightarrow> string \<Rightarrow> step \<Rightarrow> nat \<Rightarrow> bool" where
  "cacheable env img NewSession k = (case new_session env k of Inl e \<Rightarrow> False | Inr u \<Rightarrow> True)"
| "cacheable env img NewNode k = (case new_node env k of Inl e \<Rightarrow> False | Inr u \<Rightarrow> True)"
| "cacheable env img NewService k = (case new_service env k of Inl e \<Rightarrow> False | Inr u \<Rightarrow> True)"
| "cacheable env img VerifyService k =
     (case verify_service_exists env k of Inl e \<Rightarrow> False | Inr (c, n) \<Rightarrow> truthy c \<or> truthy n)"
| "cacheable env img UploadImage k =
     (case upload_ota_image env img k of Inl e \<Rightarrow> False | Inr (st, r) \<Rightarrow> truthy st \<or> truthy r)"
| "cacheable env img GetServiceParams k =
     (case get_service_params env k of Inl e \<Rightarrow> False | Inr (r, w) \<Rightarrow> truthy r \<or> truthy w)"
| "cacheable env img GetNodeParams k =
     (case get_node_params env k of Inl e \<Rightarrow> False | Inr v \<Rightarrow> truthy v)"
| "cacheable env img StartOta k = (case start_ota env k of Inl e \<Rightarrow> False | Inr v \<Rightarrow> truthy v)"
| "cacheable env img CheckOtaStatus k =
     (case check_ota_status env k of Inl e \<Rightarrow> False | Inr v \<Rightarrow> truthy v)"

definition memo_inv :: "env \<Rightarrow> string \<Rightarrow> locals \<Rightarrow> bool" where
  "memo_inv env img s =
     (\<forall>st k. k < ncalls st s \<and> cacheable env img st k \<longrightarrow> Suc k = ncalls st s \<and> cached st s)"

definition run_image_name :: "env \<Rightarrow> (string \<rightharpoonup> string) option \<Rightarrow> string" where
  "run_image_name env vars =
     (case vars of
        None \<Rightarrow> []
      | Some m \<Rightarrow>
          (case m ''otaimagepath'' of
             None \<Rightarrow> []
           | Some p \<Rightarrow> image_name (abs_img_path (cwd env) p)))"

definition env_empty_params :: env where
  "env_empty_params =
     env_ok\<lparr>get_node_params := (\<lambda>k. Inr (PDict [])),
            start_ota := (\<lambda>k. if k = 0 then Inl NetworkError else Inr (PBool True))\<rparr>"

definition env_flaky_upload :: env where
  "env_flaky_upload =
     env_ok\<lparr>upload_ota_image :=
       (\<lambda>nm k. if k < 2 then Inl NetworkError
               else Inr (PStr ''success'', PDict [(''image_url'', PStr ''https://x/y'')]))\<rparr>"

fun transient :: "exn \<Rightarrow> bool" where
  "transient NetworkError = True"
| "transient RequestTimeoutError = True"
| "transient e = False"

definition raises_transient :: "exn + 'a \<Rightarrow> bool" where
  "raises_transient r = (case r of Inl e \<Rightarrow> transient e | Inr v \<Rightarrow> False)"

definition env_offline :: env where
  "env_offline = env_ok\<lparr>new_session := (\<lambda>k. Inl NetworkError)\<rparr>"

definition env_params_down :: env where
  "env_params_down = env_ok\<lparr>get_service_params := (\<lambda>k. Inl RequestTimeoutError)\<rparr>"

definition returns_falsy :: "exn + pyval \<Rightarrow> bool" where
  "returns_falsy r = (case r of Inl e \<Rightarrow> False | Inr v \<Rightarrow> \<not> truthy v)"

definition returns_falsy_pair :: "exn + pyval \<times> pyval \<Rightarrow> bool" where
  "returns_falsy_pair r = (case r of Inl e \<Rightarrow> False | Inr (a, b) \<Rightarrow> \<not> truthy a \<and> \<not> truthy b)"

definition env_falsy_upload :: env where
  "env_falsy_upload = env_ok\<lparr>upload_ota_image := (\<lambda>nm k. Inr (PStr [], PDict []))\<rparr>"

definition env_half_upload :: env where
  "env_half_upload =
     env_ok\<lparr>upload_ota_image := (\<lambda>nm k. Inr (PStr [], PDict [(''error'', PStr ''quota'')]))\<rparr>"

definition env_empty_sets :: env where
  "env_empty_sets =
     env_ok\<lparr>get_service_params := (\<lambda>k. Inr (PList [], PList [])),
            get_node_params := (\<lambda>k. Inr (PDict [])),
            start_ota := (\<lambda>k. Inl NetworkError)\<rparr>"










section \<open>The image name\<close>

lemma find_sub_split:
  "find_sub sep s = Some i \<Longrightarrow> s = take i s @ sep @ drop (i + length sep) s"
proof (induction s arbitrary: i)
  case Nil
  then show ?case by (simp split: if_splits)
next
  case (Cons c cs)
  show ?case
  proof (cases "prefix sep (c # cs)")
    case True
    then obtain zs where "c # cs = sep @ zs" by (auto simp: prefix_def)
    moreover from True Cons.prems have "i = 0" by simp
    ultimately show ?thesis by simp
  next
    case False
    with Cons.prems obtain j where j: "find_sub sep cs = Some j" "i = Suc j" by auto
    from Cons.IH [OF j(1)] j(2) show ?thesis by simp
  qed
qed

lemma find_sub_first:
  "find_sub sep s = Some i \<Longrightarrow> s = u @ sep @ w \<Longrightarrow> i \<le> length u"
proof (induction s arbitrary: i u)
  case Nil
  then show ?case by (simp split: if_splits)
next
  case (Cons c cs)
  show ?case
  proof (cases "prefix sep (c # cs)")
    case True
    with Cons.prems(1) have "i = 0" by simp
    then show ?thesis by simp
  next
    case False
    with Cons.prems(1) obtain j where j: "find_sub sep cs = Some j" "i = Suc j" by auto
    from False Cons.prems(2) have "u \<noteq> []" by (auto simp: prefix_def)
    then obtain u' where u: "u = c # u'" using Cons.prems(2) by (cases u) auto
    with Cons.prems(2) have "cs = u' @ sep @ w" by simp
    from Cons.IH [OF j(1) this] j(2) u show ?thesis by simp
  qed
qed

lemma find_sub_none:
  "find_sub sep s = None \<Longrightarrow> s \<noteq> u @ sep @ w"
proof (induction s arbitrary: u)
  case Nil
  then show ?case by (simp split: if_splits)
next
  case (Cons c cs)
  from Cons.prems have np: "\<not> prefix sep (c # cs)" and n: "find_sub sep cs = None"
    by (auto split: if_splits)
  show ?case
  proof
    assume eq: "c # cs = u @ sep @ w"
    from np eq have "u \<noteq> []" by (auto simp: prefix_def)
    then obtain u' where u: "u = c # u'" using eq by (cases u) auto
    with eq have "cs = u' @ sep @ w" by simp
    with Cons.IH [OF n] show False by blast
  qed
qed

lemma py_split_nonempty: "py_split sep s \<noteq> []"
  by (subst py_split.simps) (simp split: option.splits)

lemma hd_py_split:
  "sep \<noteq> [] \<Longrightarrow> hd (py_split sep s) = (case find_sub sep s of None \<Rightarrow> s | Some i \<Rightarrow> take i s)"
  by (subst py_split.simps) (simp split: option.splits)

lemma takeWhile_stop: "\<not> P y \<Longrightarrow> takeWhile P (xs @ y # ys) = takeWhile P xs"
  by (induction xs) auto

lemma find_sub_single_none: "find_sub [c] s = None \<Longrightarrow> c \<notin> set s"
  by (induction s) (auto split: if_splits)

lemma last_py_split_slash:
  "last (py_split ''/'' s) = rev (takeWhile (\<lambda>c. c \<noteq> CHR ''/'') (rev s))"
proof (induction "''/''" s rule: py_split.induct)
  case (1 s)
  show ?case
  proof (cases "find_sub ''/'' s")
    case None
    then have "CHR ''/'' \<notin> set s" by (rule find_sub_single_none)
    then have tw: "takeWhile (\<lambda>c. c \<noteq> CHR ''/'') (rev s) = rev s"
      by (auto simp: takeWhile_eq_all_conv)
    have "last (py_split ''/'' s) = s"
      using None by (subst py_split.simps) simp
    then show ?thesis unfolding tw by simp
  next
    case (Some i)
    let ?r = "drop (i + length ''/'') s"
    from find_sub_split [OF Some] have s: "s = take i s @ CHR ''/'' # ?r" by simp
    have "rev s = rev ?r @ CHR ''/'' # rev (take i s)"
      by (subst s) simp
    then have tw: "takeWhile (\<lambda>c. c \<noteq> CHR ''/'') (rev s) = takeWhile (\<lambda>c. c \<noteq> CHR ''/'') (rev ?r)"
      by (simp add: takeWhile_stop)
    have "last (py_split ''/'' s) = last (py_split ''/'' ?r)"
      using Some by (subst py_split.simps) (simp add: py_split_nonempty)
    also have "\<dots> = rev (takeWhile (\<lambda>c. c \<noteq> CHR ''/'') (rev ?r))"
      using "1" Some by simp
    finally show ?thesis using tw by simp
  qed
qed

text \<open>
  Claim C10. The image name handed to the upload is the part of the last \<open>/\<close>-separated
  component of the image path that precedes the first occurrence of \<open>.bin\<close>: whenever the
  component is \<open>u @ ''.bin'' @ w\<close> with no occurrence starting further left, the name is
  \<open>u\<close>; when \<open>.bin\<close> does not occur in the component, the name is the whole component.
\<close>

theorem image_name_rule:
  "(\<forall>u w. last_component p = u @ ''.bin'' @ w \<and>
          (\<forall>u' w'. last_component p = u' @ ''.bin'' @ w' \<longrightarrow> length u \<le> length u')
          \<longrightarrow> image_name p = u) \<and>
   ((\<forall>u w. last_component p \<noteq> u @ ''.bin'' @ w) \<longrightarrow> image_name p = last_component p)"
proof -
  let ?c = "last_component p"
  have nm: "image_name p = (case find_sub ''.bin'' ?c of None \<Rightarrow> ?c | Some i \<Rightarrow> take i ?c)"
    unfolding last_component_def
    by (simp add: image_name_def hd_py_split last_py_split_slash)
  have a: "image_name p = u"
    if eq: "?c = u @ ''.bin'' @ w"
      and least: "\<forall>u' w'. ?c = u' @ ''.bin'' @ w' \<longrightarrow> length u \<le> length u'" for u w
  proof (cases "find_sub ''.bin'' ?c")
    case None
    from find_sub_none [OF None] eq show ?thesis by blast
  next
    case (Some i)
    from find_sub_first [OF Some eq] have "i \<le> length u" .
    moreover from find_sub_split [OF Some] least have "length u \<le> length (take i ?c)" by blast
    ultimately have "i = length u" by simp
    with Some nm eq show ?thesis by simp
  qed
  have b: "image_name p = ?c" if no: "\<forall>u w. ?c \<noteq> u @ ''.bin'' @ w"
  proof (cases "find_sub ''.bin'' ?c")
    case None
    with nm show ?thesis by simp
  next
    case (Some i)
    from find_sub_split [OF Some] no show ?thesis by blast
  qed
  from a b show ?thesis by blast
qed

text \<open>The two examples of the claim: \<open>app.bin.bin\<close> gives \<open>app\<close>, \<open>firmware.img\<close> stays whole.\<close>

theorem image_name_rule_witness:
  "image_name ''/home/u/app.bin.bin'' = ''app'' \<and>
   image_name ''/home/u/firmware.img'' = ''firmware.img''"
proof
  let ?p = "''/home/u/app.bin.bin''"
  have lc: "last_component ?p = ''app'' @ ''.bin'' @ ''.bin''"
    by (simp add: last_component_def)
  have f: "find_sub ''.bin'' (last_component ?p) = Some 3"
    by (simp add: last_component_def)
  have least: "\<forall>u' w'. last_component ?p = u' @ ''.bin'' @ w' \<longrightarrow> length ''app'' \<le> length u'"
    using find_sub_first [OF f] by (auto simp: numeral_3_eq_3)
  from image_name_rule [of ?p] lc least show "image_name ?p = ''app''"
    by blast
next
  let ?q = "''/home/u/firmware.img''"
  have f: "find_sub ''.bin'' (last_component ?q) = None"
    by (simp add: last_component_def)
  have "\<forall>u w. last_component ?q \<noteq> u @ ''.bin'' @ w"
    using find_sub_none [OF f] by blast
  with image_name_rule [of ?q] have "image_name ?q = last_component ?q"
    by blast
  then show "image_name ?q = ''firmware.img''"
    by (simp add: last_component_def)
qed

section \<open>Rules for blocks and loops\<close>

lemmas obs_defs = emit_def backoff_def ncalls_def

lemmas stepA_defs = ensure_session_def ensure_node_def ensure_service_obj_def
  ensure_service_config_def ensure_upload_def

lemmas stepB_defs = ensure_service_params_def ensure_node_params_def ensure_start_def
  ensure_status_def

lemma hoare_seqs_nil: "(\<And>s. P s \<Longrightarrow> B Next s) \<Longrightarrow> hoare P (seqs []) B"
  by (simp add: hoare_def)

lemma hoare_seqs_cons:
  assumes "hoare P f (\<lambda>fl s. if fl = Next then R s else B fl s)"
    and "hoare R (seqs fs) B"
  shows "hoare P (seqs (f # fs)) B"
  unfolding hoare_def
proof (intro allI impI)
  fix s fl s'
  assume a: "P s \<and> seqs (f # fs) s = (fl, s')"
  obtain fl1 s1 where f: "f s = (fl1, s1)" by (cases "f s")
  with assms(1) a have p: "if fl1 = Next then R s1 else B fl1 s1"
    by (auto simp: hoare_def)
  show "B fl s'"
  proof (cases "fl1 = Next")
    case True
    with a f have "seqs fs s1 = (fl, s')" by simp
    with assms(2) p True show ?thesis by (auto simp: hoare_def)
  next
    case False
    with a f have "fl = fl1" "s' = s1" by (cases fl1; simp)+
    with p False show ?thesis by simp
  qed
qed

lemma hoare_phaseA:
  assumes "hoare P0 (ensure_session env) (\<lambda>fl s. if fl = Next then P1 s else B fl s)"
    and "hoare P1 (ensure_node env) (\<lambda>fl s. if fl = Next then P2 s else B fl s)"
    and "hoare P2 (ensure_service_obj env) (\<lambda>fl s. if fl = Next then P3 s else B fl s)"
    and "hoare P3 (ensure_service_config env) (\<lambda>fl s. if fl = Next then P4 s else B fl s)"
    and "hoare P4 (ensure_upload env img) (\<lambda>fl s. if fl = Next then P5 s else B fl s)"
    and "\<And>s. P5 s \<Longrightarrow> B Next s"
  shows "hoare P0 (phaseA_try env img) B"
  unfolding phaseA_try_def
  by (intro hoare_seqs_cons [OF assms(1)] hoare_seqs_cons [OF assms(2)]
      hoare_seqs_cons [OF assms(3)] hoare_seqs_cons [OF assms(4)]
      hoare_seqs_cons [OF assms(5)] hoare_seqs_nil assms(6))

lemma hoare_phaseB:
  assumes "hoare P0 (ensure_service_params env) (\<lambda>fl s. if fl = Next then P1 s else B fl s)"
    and "hoare P1 (ensure_node_params env) (\<lambda>fl s. if fl = Next then P2 s else B fl s)"
    and "hoare P2 (ensure_start env) (\<lambda>fl s. if fl = Next then P3 s else B fl s)"
    and "hoare P3 (ensure_status env) (\<lambda>fl s. if fl = Next then P4 s else B fl s)"
    and "\<And>s. P4 s \<Longrightarrow> B Next s"
    and url: "\<And>s u. I s \<Longrightarrow> has_url (response s) \<Longrightarrow> P0 (s\<lparr>param_url_to_set := u\<rparr>)"
    and skip: "\<And>s. I s \<Longrightarrow> B Next s"
    and raise: "\<And>s e. I s \<Longrightarrow> B (Raise e) s"
  shows "hoare I (phaseB_try env) B"
proof -
  have steps: "hoare P0 (seqs [ensure_service_params env, ensure_node_params env,
                     ensure_start env, ensure_status env]) B"
    by (intro hoare_seqs_cons [OF assms(1)] hoare_seqs_cons [OF assms(2)]
      hoare_seqs_cons [OF assms(3)] hoare_seqs_cons [OF assms(4)] hoare_seqs_nil assms(5))
  show ?thesis
    unfolding hoare_def
  proof (intro allI impI)
    fix s fl s'
    assume a: "I s \<and> phaseB_try env s = (fl, s')"
    show "B fl s'"
    proof (cases "py_in ''image_url'' (response s)")
      case (Inl e)
      with a show ?thesis by (auto simp: phaseB_try_def raise)
    next
      case (Inr b)
      show ?thesis
      proof (cases b)
        case False
        with a Inr show ?thesis by (auto simp: phaseB_try_def skip)
      next
        case True
        show ?thesis
        proof (cases "py_getitem (response s) ''image_url''")
          case (Inl e)
          with a Inr True show ?thesis by (auto simp: phaseB_try_def raise)
        next
          case r: (Inr u)
          with Inr True have "has_url (response s)" by (simp add: has_url_def)
          with a have "P0 (s\<lparr>param_url_to_set := u\<rparr>)" by (simp add: url)
          moreover from a Inr True r
          have "seqs [ensure_service_params env, ensure_node_params env,
                     ensure_start env, ensure_status env] (s\<lparr>param_url_to_set := u\<rparr>) = (fl, s')"
            by (simp add: phaseB_try_def)
          ultimately show ?thesis using steps by (auto simp: hoare_def)
        qed
      qed
    qed
  qed
qed

lemma retry_loop_stable:
  assumes init: "I s"
    and body: "hoare I body (bpost I Q)"
    and stable: "\<And>e s. I s \<Longrightarrow> loop_event e \<Longrightarrow> I (emit e s)"
    and fin: "\<And>s. I s \<Longrightarrow> Q s"
  shows "Q (retry_loop body n s)"
  using init
proof (induction n arbitrary: s)
  case 0
  then show ?case by (simp add: fin)
next
  case (Suc n)
  obtain fl s' where b: "body s = (fl, s')" by (cases "body s")
  with body Suc.prems have p: "bpost I Q fl s'" by (auto simp: hoare_def)
  have bo: "I (backoff n t)" if "I t" for t
    using that by (auto simp: backoff_def intro!: stable)
  show ?case
  proof (cases fl)
    case Next
    with p have "I s'" by (simp add: bpost_def)
    then have "Q (retry_loop body n (backoff n s'))" by (intro Suc.IH bo)
    with b Next show ?thesis by simp
  next
    case Brk
    with p b show ?thesis by (simp add: bpost_def)
  next
    case (Raise e)
    with p have i: "I s'" by (simp add: bpost_def)
    have w: "I (emit (Warn e) s')" using i by (auto intro!: stable)
    have "Q (retry_loop body n (backoff n (emit (Warn e) s')))" by (intro Suc.IH bo w)
    moreover have "Q (emit (Error SSLFailure) s')"
      using i by (auto intro!: stable fin)
    moreover have "Q (emit (Error (LoopFatal e)) s')"
      using i by (auto intro!: stable fin)
    ultimately show ?thesis using b Raise by auto
  qed
qed

text \<open>
  What a loop leaves alone: an event that neither the loop nor its sub-steps emit occurs
  as often after the loop as before it.
\<close>

lemma phaseA_count_frame:
  assumes "\<not> loop_event x" "x \<noteq> Error ServiceNotFound"
    "x \<notin> Call ` {NewSession, NewNode, NewService, VerifyService, UploadImage}"
  shows "count_list (trace (retry_loop (phaseA_try env img) n s)) x = count_list (trace s) x"
proof -
  let ?I = "\<lambda>t. count_list (trace t) x = count_list (trace s) x"
  let ?K = "\<lambda>fl t. if fl = Next then ?I t else bpost ?I ?I fl t"
  have "hoare ?I (phaseA_try env img) (bpost ?I ?I)"
  proof (rule hoare_phaseA [where ?P1.0 = ?I and ?P2.0 = ?I and ?P3.0 = ?I and ?P4.0 = ?I and ?P5.0 = ?I])
    show "hoare ?I (ensure_session env) ?K"
      using assms by (auto simp: hoare_def bpost_def ensure_session_def obs_defs split: sum.splits if_splits)
    show "hoare ?I (ensure_node env) ?K"
      using assms by (auto simp: hoare_def bpost_def ensure_node_def obs_defs split: sum.splits if_splits)
    show "hoare ?I (ensure_service_obj env) ?K"
      using assms by (auto simp: hoare_def bpost_def ensure_service_obj_def obs_defs split: sum.splits if_splits)
    show "hoare ?I (ensure_service_config env) ?K"
      using assms by (auto simp: hoare_def bpost_def ensure_service_config_def obs_defs Let_def split: sum.splits if_splits)
    show "hoare ?I (ensure_upload env img) ?K"
      using assms by (auto simp: hoare_def bpost_def ensure_upload_def obs_defs Let_def split: sum.splits if_splits)
  qed (simp add: bpost_def)
  then show ?thesis
    by (rule retry_loop_stable [where I = ?I, rotated]) (use assms in \<open>auto simp: obs_defs\<close>)
qed

lemma phaseB_count_frame:
  assumes "\<not> loop_event x" "x \<noteq> Error StartOtaFailed"
    "x \<notin> Call ` {GetServiceParams, GetNodeParams, StartOta, CheckOtaStatus}"
  shows "count_list (trace (retry_loop (phaseB_try env) n s)) x = count_list (trace s) x"
proof -
  let ?I = "\<lambda>t. count_list (trace t) x = count_list (trace s) x"
  let ?K = "\<lambda>fl t. if fl = Next then ?I t else bpost ?I ?I fl t"
  have "hoare ?I (phaseB_try env) (bpost ?I ?I)"
  proof (rule hoare_phaseB [where ?P0.0 = ?I and ?P1.0 = ?I and ?P2.0 = ?I and ?P3.0 = ?I and ?P4.0 = ?I])
    show "hoare ?I (ensure_service_params env) ?K"
      using assms by (auto simp: hoare_def bpost_def ensure_service_params_def obs_defs split: sum.splits if_splits)
    show "hoare ?I (ensure_node_params env) ?K"
      using assms by (auto simp: hoare_def bpost_def ensure_node_params_def obs_defs split: sum.splits if_splits)
    show "hoare ?I (ensure_start env) ?K"
      using assms by (auto simp: hoare_def bpost_def ensure_start_def obs_defs Let_def split: sum.splits if_splits)
    show "hoare ?I (ensure_status env) ?K"
      using assms by (auto simp: hoare_def bpost_def ensure_status_def obs_defs Let_def split: sum.splits if_splits)
  qed (simp_all add: bpost_def)
  then show ?thesis
    by (rule retry_loop_stable [where I = ?I, rotated]) (use assms in \<open>auto simp: obs_defs\<close>)
qed

section \<open>The paths of a run\<close>

lemma py_in_error: "py_in k v = Inl e \<Longrightarrow> e = TypeError"
  by (cases v) auto

lemma run_cases [case_names no_vars no_key unreadable no_session no_status bad_status
    no_success phaseB_failed phaseB_done]:
  obtains
    "vars = None" "ota_upgrade env vars = (Next, emit (Error (Unhandled TypeError)) init_locals)"
  | m where "vars = Some m" "m ''nodeid'' = None \<or> m ''otaimagepath'' = None"
      "ota_upgrade env vars = (Next, emit (Error KeyErrorMsg) init_locals)"
  | m nid p e where "vars = Some m" "m ''nodeid'' = Some nid" "m ''otaimagepath'' = Some p"
      "read_file env (abs_img_path (cwd env) p) = Inl e"
      "ota_upgrade env vars =
         (Next, emit (Error (if e = KeyError then KeyErrorMsg else Unhandled e))
                  (emit (ReadFile (abs_img_path (cwd env) p)) init_locals))"
  | m nid p b where "vars = Some m" "m ''nodeid'' = Some nid" "m ''otaimagepath'' = Some p"
      "read_file env (abs_img_path (cwd env) p) = Inr b"
      "\<not> node_object (phaseA_result env p)"
      "ota_upgrade env vars = (Next, emit (Error SessionInitFailed) (phaseA_result env p))"
  | m nid p b where "vars = Some m" "m ''nodeid'' = Some nid" "m ''otaimagepath'' = Some p"
      "read_file env (abs_img_path (cwd env) p) = Inr b"
      "node_object (phaseA_result env p)" "\<not> truthy (status (phaseA_result env p))"
      "ota_upgrade env vars = (Next, emit (Error UpgradeFailed) (phaseA_result env p))"
  | m nid p b where "vars = Some m" "m ''nodeid'' = Some nid" "m ''otaimagepath'' = Some p"
      "read_file env (abs_img_path (cwd env) p) = Inr b"
      "node_object (phaseA_result env p)" "truthy (status (phaseA_result env p))"
      "py_in ''success'' (status (phaseA_result env p)) = Inl TypeError"
      "ota_upgrade env vars = (Next, emit (Error (Unhandled TypeError)) (phaseA_result env p))"
  | m nid p b where "vars = Some m" "m ''nodeid'' = Some nid" "m ''otaimagepath'' = Some p"
      "read_file env (abs_img_path (cwd env) p) = Inr b"
      "node_object (phaseA_result env p)" "truthy (status (phaseA_result env p))"
      "py_in ''success'' (status (phaseA_result env p)) = Inr False"
      "ota_upgrade env vars = (Next, emit (Error UpgradeFailed) (phaseA_result env p))"
  | m nid p b where "vars = Some m" "m ''nodeid'' = Some nid" "m ''otaimagepath'' = Some p"
      "read_file env (abs_img_path (cwd env) p) = Inr b"
      "node_object (phaseA_result env p)" "truthy (status (phaseA_result env p))"
      "py_in ''success'' (status (phaseA_result env p)) = Inr True"
      "in_none_false (ota_status (phaseB_result env (phaseA_result env p)))"
      "ota_upgrade env vars =
         (Next, emit (Error UpgradeFailed) (phaseB_result env (phaseA_result env p)))"
  | m nid p b where "vars = Some m" "m ''nodeid'' = Some nid" "m ''otaimagepath'' = Some p"
      "read_file env (abs_img_path (cwd env) p) = Inr b"
      "node_object (phaseA_result env p)" "truthy (status (phaseA_result env p))"
      "py_in ''success'' (status (phaseA_result env p)) = Inr True"
      "\<not> in_none_false (ota_status (phaseB_result env (phaseA_result env p)))"
      "ota_upgrade env vars = (Next, phaseB_result env (phaseA_result env p))"
proof (cases vars)
  case None
  then have "ota_upgrade env vars = (Next, emit (Error (Unhandled TypeError)) init_locals)"
    by (simp add: ota_upgrade_def ota_upgrade_body_def)
  with None that(1) show ?thesis by blast
next
  case (Some m)
  show ?thesis
  proof (cases "m ''nodeid'' = None \<or> m ''otaimagepath'' = None")
    case True
    with Some have "ota_upgrade env vars = (Next, emit (Error KeyErrorMsg) init_locals)"
      by (auto simp: ota_upgrade_def ota_upgrade_body_def split: option.splits)
    with Some True that(2) show ?thesis by blast
  next
    case False
    then obtain nid p where k: "m ''nodeid'' = Some nid" "m ''otaimagepath'' = Some p" by auto
    let ?path = "abs_img_path (cwd env) p"
    show ?thesis
    proof (cases "read_file env ?path")
      case (Inl e)
      with Some k have "ota_upgrade env vars =
         (Next, emit (Error (if e = KeyError then KeyErrorMsg else Unhandled e))
                  (emit (ReadFile ?path) init_locals))"
        by (simp add: ota_upgrade_def ota_upgrade_body_def Let_def)
      with Some k Inl that(3) show ?thesis by blast
    next
      case (Inr b)
      let ?s1 = "phaseA_result env p"
      have body: "ota_upgrade_body env vars = after_phaseA env ?s1"
        using Some k Inr by (simp add: ota_upgrade_body_def Let_def phaseA_result_def)
      consider (a) "\<not> node_object ?s1"
        | (b) "node_object ?s1" "\<not> truthy (status ?s1)"
        | (c) "node_object ?s1" "truthy (status ?s1)" "py_in ''success'' (status ?s1) = Inl TypeError"
        | (d) "node_object ?s1" "truthy (status ?s1)" "py_in ''success'' (status ?s1) = Inr False"
        | (e) "node_object ?s1" "truthy (status ?s1)" "py_in ''success'' (status ?s1) = Inr True"
        by (cases "py_in ''success'' (status ?s1)") (auto dest: py_in_error)
      then show ?thesis
      proof cases
        case a
        then have "ota_upgrade env vars = (Next, emit (Error SessionInitFailed) ?s1)"
          by (simp add: ota_upgrade_def body after_phaseA_def)
        with Some k Inr a that(4) show ?thesis by blast
      next
        case b
        then have "ota_upgrade env vars = (Next, emit (Error UpgradeFailed) ?s1)"
          by (simp add: ota_upgrade_def body after_phaseA_def)
        with Some k Inr b that(5) show ?thesis by blast
      next
        case c
        then have "ota_upgrade env vars = (Next, emit (Error (Unhandled TypeError)) ?s1)"
          by (simp add: ota_upgrade_def body after_phaseA_def)
        with Some k Inr c that(6) show ?thesis by blast
      next
        case d
        then have "ota_upgrade env vars = (Next, emit (Error UpgradeFailed) ?s1)"
          by (simp add: ota_upgrade_def body after_phaseA_def)
        with Some k Inr d that(7) show ?thesis by blast
      next
        case e
        let ?s2 = "phaseB_result env ?s1"
        show ?thesis
        proof (cases "in_none_false (ota_status ?s2)")
          case True
          with e have "ota_upgrade env vars = (Next, emit (Error UpgradeFailed) ?s2)"
            by (simp add: ota_upgrade_def body after_phaseA_def run_phaseB_def phaseB_result_def Let_def)
          with Some k Inr e True that(8) show ?thesis by blast
        next
          case False
          with e have "ota_upgrade env vars = (Next, ?s2)"
            by (simp add: ota_upgrade_def body after_phaseA_def run_phaseB_def phaseB_result_def Let_def)
          with Some k Inr e False that(9) show ?thesis by blast
        qed
      qed
    qed
  qed
qed

lemma phaseA_result_frame:
  assumes "\<not> loop_event x" "x \<noteq> Error ServiceNotFound"
    "x \<notin> Call ` {NewSession, NewNode, NewService, VerifyService, UploadImage}"
  shows "count_list (trace (phaseA_result env p)) x =
         count_list [ReadFile (abs_img_path (cwd env) p)] x"
  unfolding phaseA_result_def
  by (subst phaseA_count_frame [OF assms]) (simp add: emit_def init_locals_def)

lemma phaseB_result_frame:
  assumes "\<not> loop_event x" "x \<noteq> Error StartOtaFailed"
    "x \<notin> Call ` {GetServiceParams, GetNodeParams, StartOta, CheckOtaStatus}"
  shows "count_list (trace (phaseB_result env s1)) x =
         count_list (trace s1 @ [InfoUploadSuccess]) x"
  unfolding phaseB_result_def
  by (subst phaseB_count_frame [OF assms]) (simp add: emit_def enter_phaseB_def)

section \<open>Fatal results leave a phase at once\<close>

lemma notfound_loop:
  assumes v: "verify_service_exists env k = Inr (cfg, nm)" "\<not> truthy cfg"
    and i: "ncalls VerifyService s \<le> k" "\<not> truthy (status s)"
  shows "(\<lambda>s'. ncalls VerifyService s' \<le> k \<or>
            ((\<exists>pre. trace s' = pre @ [Call VerifyService, Error ServiceNotFound]) \<and>
             node_object s' \<and> \<not> truthy (status s') \<and> ncalls VerifyService s' = Suc k))
         (retry_loop (phaseA_try env img) n s)"
    (is "?Q (retry_loop _ n s)")
proof -
  let ?I = "\<lambda>s. ncalls VerifyService s \<le> k \<and> \<not> truthy (status s)"
  let ?J = "\<lambda>s. ?I s \<and> node_object s"
  let ?B = "bpost ?I ?Q"
  have body: "hoare ?I (phaseA_try env img) ?B"
  proof (rule hoare_phaseA [where ?P1.0 = ?I and ?P2.0 = ?J and ?P3.0 = ?J and ?P4.0 = ?J and ?P5.0 = ?I])
    show "hoare ?I (ensure_session env) (\<lambda>fl s. if fl = Next then ?I s else ?B fl s)"
      by (auto simp: hoare_def bpost_def ensure_session_def obs_defs split: sum.splits if_splits)
    show "hoare ?I (ensure_node env) (\<lambda>fl s. if fl = Next then ?J s else ?B fl s)"
      by (auto simp: hoare_def bpost_def ensure_node_def obs_defs split: sum.splits if_splits)
    show "hoare ?J (ensure_service_obj env) (\<lambda>fl s. if fl = Next then ?J s else ?B fl s)"
      by (auto simp: hoare_def bpost_def ensure_service_obj_def obs_defs split: sum.splits if_splits)
    show "hoare ?J (ensure_service_config env) (\<lambda>fl s. if fl = Next then ?J s else ?B fl s)"
      using v
      by (auto simp: hoare_def bpost_def ensure_service_config_def obs_defs Let_def order_le_less
          split: sum.splits if_splits)
    show "hoare ?J (ensure_upload env img) (\<lambda>fl s. if fl = Next then ?I s else ?B fl s)"
      by (auto simp: hoare_def bpost_def ensure_upload_def obs_defs Let_def split: sum.splits if_splits)
  qed (simp add: bpost_def)
  show ?thesis
    by (rule retry_loop_stable [where I = ?I, OF _ body]) (use i in \<open>auto simp: obs_defs\<close>)
qed

lemma rejected_loop:
  assumes v: "start_ota env k = Inr v" "\<not> truthy v"
    and i: "ncalls StartOta s \<le> k" "ota_status s = PNone"
  shows "(\<lambda>s'. ncalls StartOta s' \<le> k \<or>
            ((\<exists>pre. trace s' = pre @ [Call StartOta, Error StartOtaFailed]) \<and>
             ota_status s' = PNone \<and> ncalls StartOta s' = Suc k))
         (retry_loop (phaseB_try env) n s)"
    (is "?Q (retry_loop _ n s)")
proof -
  let ?I = "\<lambda>s. ncalls StartOta s \<le> k \<and> ota_status s = PNone"
  let ?B = "bpost ?I ?Q"
  have body: "hoare ?I (phaseB_try env) ?B"
  proof (rule hoare_phaseB [where ?P0.0 = ?I and ?P1.0 = ?I and ?P2.0 = ?I and ?P3.0 = ?I and ?P4.0 = ?I])
    show "hoare ?I (ensure_service_params env) (\<lambda>fl s. if fl = Next then ?I s else ?B fl s)"
      by (auto simp: hoare_def bpost_def ensure_service_params_def obs_defs split: sum.splits if_splits)
    show "hoare ?I (ensure_node_params env) (\<lambda>fl s. if fl = Next then ?I s else ?B fl s)"
      by (auto simp: hoare_def bpost_def ensure_node_params_def obs_defs split: sum.splits if_splits)
    show "hoare ?I (ensure_start env) (\<lambda>fl s. if fl = Next then ?I s else ?B fl s)"
      using v
      by (auto simp: hoare_def bpost_def ensure_start_def obs_defs Let_def order_le_less
          split: sum.splits if_splits)
    show "hoare ?I (ensure_status env) (\<lambda>fl s. if fl = Next then ?I s else ?B fl s)"
      by (auto simp: hoare_def bpost_def ensure_status_def obs_defs Let_def split: sum.splits if_splits)
  qed (auto simp: bpost_def obs_defs)
  show ?thesis
    by (rule retry_loop_stable [where I = ?I, OF _ body]) (use i in \<open>auto simp: obs_defs\<close>)
qed

text \<open>
  Claim C3. Whenever an invocation of service discovery returns a falsy service
  configuration, that call is the last of its kind and the run ends with it, the
  "not found" error and the failure report: no sleep, no retry and no other call follow.
  Likewise, whenever the start command returns a falsy result, the run ends with that
  call, the "failed to start" error and the failure report.
\<close>

theorem fatal_short_circuit:
  "(\<forall>k cfg nm. verify_service_exists env k = Inr (cfg, nm) \<and> \<not> truthy cfg \<and>
        k < count_list (run_trace env vars) (Call VerifyService) \<longrightarrow>
      count_list (run_trace env vars) (Call VerifyService) = Suc k \<and>
      (\<exists>pre. run_trace env vars =
          pre @ [Call VerifyService, Error ServiceNotFound, Error UpgradeFailed])) \<and>
   (\<forall>k v. start_ota env k = Inr v \<and> \<not> truthy v \<and>
        k < count_list (run_trace env vars) (Call StartOta) \<longrightarrow>
      count_list (run_trace env vars) (Call StartOta) = Suc k \<and>
      (\<exists>pre. run_trace env vars =
          pre @ [Call StartOta, Error StartOtaFailed, Error UpgradeFailed]))"
proof -
  have partA: "count_list (run_trace env vars) (Call VerifyService) = Suc k \<and>
      (\<exists>pre. run_trace env vars =
          pre @ [Call VerifyService, Error ServiceNotFound, Error UpgradeFailed])"
    if a: "verify_service_exists env k = Inr (cfg, nm) \<and> \<not> truthy cfg \<and>
        k < count_list (run_trace env vars) (Call VerifyService)" for k cfg nm
  proof -
  have q: "ncalls VerifyService (phaseA_result env p) \<le> k \<or>
            ((\<exists>pre. trace (phaseA_result env p) = pre @ [Call VerifyService, Error ServiceNotFound]) \<and>
             node_object (phaseA_result env p) \<and> \<not> truthy (status (phaseA_result env p)) \<and>
             ncalls VerifyService (phaseA_result env p) = Suc k)" for p
    unfolding phaseA_result_def
    by (rule notfound_loop [of env k cfg nm]) (use a in \<open>auto simp: obs_defs init_locals_def\<close>)
  have fb: "count_list (trace (phaseB_result env s1)) (Call VerifyService) = ncalls VerifyService s1" for s1
    by (subst phaseB_result_frame) (auto simp: ncalls_def)
  show "count_list (run_trace env vars) (Call VerifyService) = Suc k \<and>
      (\<exists>pre. run_trace env vars = pre @ [Call VerifyService, Error ServiceNotFound, Error UpgradeFailed])"
  proof (cases rule: run_cases [of vars env])
    case no_vars
    with a show ?thesis by (simp add: run_trace_def emit_def init_locals_def)
  next
    case (no_key m)
    with a show ?thesis by (simp add: run_trace_def emit_def init_locals_def)
  next
    case (unreadable m nid p e)
    with a show ?thesis by (simp add: run_trace_def emit_def init_locals_def)
  next
    case (no_session m nid p b)
    with a q [of p] show ?thesis by (auto simp: run_trace_def obs_defs)
  next
    case (no_status m nid p b)
    with a q [of p] show ?thesis by (auto simp: run_trace_def obs_defs)
  next
    case (bad_status m nid p b)
    with a q [of p] show ?thesis by (auto simp: run_trace_def obs_defs)
  next
    case (no_success m nid p b)
    with a q [of p] show ?thesis by (auto simp: run_trace_def obs_defs)
  next
    case (phaseB_failed m nid p b)
    with a q [of p] fb [of "phaseA_result env p"] show ?thesis
      by (auto simp: run_trace_def emit_def)
  next
    case (phaseB_done m nid p b)
    with a q [of p] fb [of "phaseA_result env p"] show ?thesis
      by (auto simp: run_trace_def emit_def)
  qed
  qed
  have partB: "count_list (run_trace env vars) (Call StartOta) = Suc k \<and>
      (\<exists>pre. run_trace env vars = pre @ [Call StartOta, Error StartOtaFailed, Error UpgradeFailed])"
    if a: "start_ota env k = Inr v \<and> \<not> truthy v \<and>
        k < count_list (run_trace env vars) (Call StartOta)" for k v
  proof -
  have fa: "count_list (trace (phaseA_result env p)) (Call StartOta) = 0" for p
    by (subst phaseA_result_frame) auto
  have q: "ncalls StartOta (phaseB_result env (phaseA_result env p)) \<le> k \<or>
            ((\<exists>pre. trace (phaseB_result env (phaseA_result env p)) = pre @ [Call StartOta, Error StartOtaFailed]) \<and>
             ota_status (phaseB_result env (phaseA_result env p)) = PNone \<and>
             ncalls StartOta (phaseB_result env (phaseA_result env p)) = Suc k)" for p
    unfolding phaseB_result_def
    by (rule rejected_loop [of env k v])
       (use a fa [of p] in \<open>auto simp: obs_defs enter_phaseB_def\<close>)
  show "count_list (run_trace env vars) (Call StartOta) = Suc k \<and>
      (\<exists>pre. run_trace env vars = pre @ [Call StartOta, Error StartOtaFailed, Error UpgradeFailed])"
  proof (cases rule: run_cases [of vars env])
    case no_vars
    with a show ?thesis by (simp add: run_trace_def emit_def init_locals_def)
  next
    case (no_key m)
    with a show ?thesis by (simp add: run_trace_def emit_def init_locals_def)
  next
    case (unreadable m nid p e)
    with a show ?thesis by (simp add: run_trace_def emit_def init_locals_def)
  next
    case (no_session m nid p b)
    with a fa [of p] show ?thesis by (auto simp: run_trace_def obs_defs)
  next
    case (no_status m nid p b)
    with a fa [of p] show ?thesis by (auto simp: run_trace_def obs_defs)
  next
    case (bad_status m nid p b)
    with a fa [of p] show ?thesis by (auto simp: run_trace_def obs_defs)
  next
    case (no_success m nid p b)
    with a fa [of p] show ?thesis by (auto simp: run_trace_def obs_defs)
  next
    case (phaseB_failed m nid p b)
    with a q [of p] show ?thesis
      by (auto simp: run_trace_def obs_defs)
  next
    case (phaseB_done m nid p b)
    with a q [of p] show ?thesis
      by (auto simp: run_trace_def obs_defs)
  qed
  qed
  from partA partB show ?thesis by blast
qed

section \<open>Concrete runs\<close>

lemmas run_defs = run_trace_def ota_upgrade_def ota_upgrade_body_def after_phaseA_def
  run_phaseB_def enter_phaseB_def phaseA_try_def phaseB_try_def stepA_defs stepB_defs
  obs_defs init_locals_def MAX_HTTP_CONNECTION_RETRIES_def abs_img_path_def isabs_def
  path_join_def Let_def eval_nat_numeral

lemma run_ok:
  "run_trace env_ok (Some vars0) =
     [ReadFile ''/home/u/fw.bin'', Call NewSession, Call NewNode, Call NewService,
      Call VerifyService, Call UploadImage, InfoUploadSuccess, Call GetServiceParams,
      Call GetNodeParams, Call StartOta, Call CheckOtaStatus]"
  by (simp add: run_defs env_ok_def vars0_def)

lemma run_no_service:
  "run_trace env_no_service (Some vars0) =
     [ReadFile ''/home/u/fw.bin'', Call NewSession, Call NewNode, Call NewService,
      Call VerifyService, Error ServiceNotFound, Error UpgradeFailed]"
  by (simp add: run_defs env_no_service_def env_ok_def vars0_def)

lemma run_rejected:
  "run_trace env_rejected (Some vars0) =
     [ReadFile ''/home/u/fw.bin'', Call NewSession, Call NewNode, Call NewService,
      Call VerifyService, Call UploadImage, InfoUploadSuccess, Call GetServiceParams,
      Call GetNodeParams, Call StartOta, Error StartOtaFailed, Error UpgradeFailed]"
  by (simp add: run_defs env_rejected_def env_ok_def vars0_def)

text \<open>
  A node without the OTA service, and a device that rejects the start command: each run
  stops right after the fatal result.
\<close>

theorem fatal_short_circuit_witness:
  "(count_list (run_trace env_no_service (Some vars0)) (Call VerifyService) = Suc 0 \<and>
    (\<exists>pre. run_trace env_no_service (Some vars0) =
        pre @ [Call VerifyService, Error ServiceNotFound, Error UpgradeFailed])) \<and>
   (count_list (run_trace env_rejected (Some vars0)) (Call StartOta) = Suc 0 \<and>
    (\<exists>pre. run_trace env_rejected (Some vars0) =
        pre @ [Call StartOta, Error StartOtaFailed, Error UpgradeFailed]))"
proof -
  have a: "verify_service_exists env_no_service 0 = Inr (PNone, PNone) \<and> \<not> truthy PNone \<and>
        0 < count_list (run_trace env_no_service (Some vars0)) (Call VerifyService)"
    by (simp add: run_no_service) (simp add: env_no_service_def env_ok_def)
  have b: "start_ota env_rejected 0 = Inr (PBool False) \<and> \<not> truthy (PBool False) \<and>
        0 < count_list (run_trace env_rejected (Some vars0)) (Call StartOta)"
    by (simp add: run_rejected) (simp add: env_rejected_def env_ok_def)
  from a fatal_short_circuit [of env_no_service "Some vars0"]
  have "count_list (run_trace env_no_service (Some vars0)) (Call VerifyService) = Suc 0 \<and>
    (\<exists>pre. run_trace env_no_service (Some vars0) =
        pre @ [Call VerifyService, Error ServiceNotFound, Error UpgradeFailed])"
    by blast
  moreover from b fatal_short_circuit [of env_rejected "Some vars0"]
  have "count_list (run_trace env_rejected (Some vars0)) (Call StartOta) = Suc 0 \<and>
    (\<exists>pre. run_trace env_rejected (Some vars0) =
        pre @ [Call StartOta, Error StartOtaFailed, Error UpgradeFailed])"
    by blast
  ultimately show ?thesis by blast
qed

section \<open>Terminal results leave a phase at once\<close>

lemma phaseB_prefix: "prefix (trace s) (trace (retry_loop (phaseB_try env) n s))"
proof -
  let ?I = "\<lambda>t. prefix (trace s) (trace t)"
  let ?K = "\<lambda>fl t. if fl = Next then ?I t else bpost ?I ?I fl t"
  have "hoare ?I (phaseB_try env) (bpost ?I ?I)"
  proof (rule hoare_phaseB [where ?P0.0 = ?I and ?P1.0 = ?I and ?P2.0 = ?I and ?P3.0 = ?I and ?P4.0 = ?I])
    show "hoare ?I (ensure_service_params env) ?K"
      by (auto simp: hoare_def bpost_def ensure_service_params_def obs_defs split: sum.splits if_splits)
    show "hoare ?I (ensure_node_params env) ?K"
      by (auto simp: hoare_def bpost_def ensure_node_params_def obs_defs split: sum.splits if_splits)
    show "hoare ?I (ensure_start env) ?K"
      by (auto simp: hoare_def bpost_def ensure_start_def obs_defs Let_def split: sum.splits if_splits)
    show "hoare ?I (ensure_status env) ?K"
      by (auto simp: hoare_def bpost_def ensure_status_def obs_defs Let_def split: sum.splits if_splits)
  qed (simp_all add: bpost_def)
  then show ?thesis
    by (rule retry_loop_stable [where I = ?I, rotated]) (auto simp: obs_defs)
qed

lemma phaseB_result_trace:
  "\<exists>ext. trace (phaseB_result env s1) = trace s1 @ InfoUploadSuccess # ext"
proof -
  have "prefix (trace s1 @ [InfoUploadSuccess]) (trace (phaseB_result env s1))"
    using phaseB_prefix [of "enter_phaseB (emit InfoUploadSuccess s1)" env MAX_HTTP_CONNECTION_RETRIES]
    by (simp add: phaseB_result_def enter_phaseB_def emit_def)
  then show ?thesis by (auto simp: prefix_def)
qed

lemma upload_done_loop:
  assumes u: "upload_ota_image env img k = Inr (st, resp)" "truthy st"
    and i: "ncalls UploadImage s \<le> k" "\<not> truthy (status s)"
  shows "(\<lambda>s'. ncalls UploadImage s' \<le> k \<or>
            ((\<exists>pre. trace s' = pre @ [Call UploadImage]) \<and>
             node_object s' \<and> truthy (status s') \<and> ncalls UploadImage s' = Suc k))
         (retry_loop (phaseA_try env img) n s)"
    (is "?Q (retry_loop _ n s)")
proof -
  let ?I = "\<lambda>s. ncalls UploadImage s \<le> k \<and> \<not> truthy (status s)"
  let ?J = "\<lambda>s. ?I s \<and> node_object s"
  let ?B = "bpost ?I ?Q"
  have body: "hoare ?I (phaseA_try env img) ?B"
  proof (rule hoare_phaseA [where ?P1.0 = ?I and ?P2.0 = ?J and ?P3.0 = ?J and ?P4.0 = ?J and ?P5.0 = ?I])
    show "hoare ?I (ensure_session env) (\<lambda>fl s. if fl = Next then ?I s else ?B fl s)"
      by (auto simp: hoare_def bpost_def ensure_session_def obs_defs split: sum.splits if_splits)
    show "hoare ?I (ensure_node env) (\<lambda>fl s. if fl = Next then ?J s else ?B fl s)"
      by (auto simp: hoare_def bpost_def ensure_node_def obs_defs split: sum.splits if_splits)
    show "hoare ?J (ensure_service_obj env) (\<lambda>fl s. if fl = Next then ?J s else ?B fl s)"
      by (auto simp: hoare_def bpost_def ensure_service_obj_def obs_defs split: sum.splits if_splits)
    show "hoare ?J (ensure_service_config env) (\<lambda>fl s. if fl = Next then ?J s else ?B fl s)"
      by (auto simp: hoare_def bpost_def ensure_service_config_def obs_defs Let_def
          split: sum.splits if_splits)
    show "hoare ?J (ensure_upload env img) (\<lambda>fl s. if fl = Next then ?I s else ?B fl s)"
      using u
      by (auto simp: hoare_def bpost_def ensure_upload_def obs_defs Let_def order_le_less
          split: sum.splits if_splits)
  qed (simp add: bpost_def)
  show ?thesis
    by (rule retry_loop_stable [where I = ?I, OF _ body]) (use i in \<open>auto simp: obs_defs\<close>)
qed

lemma poll_done_loop:
  assumes c: "check_ota_status env k = Inr v"
    and i: "ncalls CheckOtaStatus s \<le> k" "ota_status s = PNone"
  shows "(\<lambda>s'. ncalls CheckOtaStatus s' \<le> k \<or>
            ((\<exists>pre. trace s' = pre @ [Call CheckOtaStatus]) \<and> ncalls CheckOtaStatus s' = Suc k))
         (retry_loop (phaseB_try env) n s)"
    (is "?Q (retry_loop _ n s)")
proof -
  let ?I = "\<lambda>s. ncalls CheckOtaStatus s \<le> k \<and> ota_status s = PNone"
  let ?B = "bpost ?I ?Q"
  have body: "hoare ?I (phaseB_try env) ?B"
  proof (rule hoare_phaseB [where ?P0.0 = ?I and ?P1.0 = ?I and ?P2.0 = ?I and ?P3.0 = ?I and ?P4.0 = ?I])
    show "hoare ?I (ensure_service_params env) (\<lambda>fl s. if fl = Next then ?I s else ?B fl s)"
      by (auto simp: hoare_def bpost_def ensure_service_params_def obs_defs split: sum.splits if_splits)
    show "hoare ?I (ensure_node_params env) (\<lambda>fl s. if fl = Next then ?I s else ?B fl s)"
      by (auto simp: hoare_def bpost_def ensure_node_params_def obs_defs split: sum.splits if_splits)
    show "hoare ?I (ensure_start env) (\<lambda>fl s. if fl = Next then ?I s else ?B fl s)"
      by (auto simp: hoare_def bpost_def ensure_start_def obs_defs Let_def
          split: sum.splits if_splits)
    show "hoare ?I (ensure_status env) (\<lambda>fl s. if fl = Next then ?I s else ?B fl s)"
      using c
      by (auto simp: hoare_def bpost_def ensure_status_def obs_defs Let_def order_le_less
          split: sum.splits if_splits)
  qed (auto simp: bpost_def obs_defs)
  show ?thesis
    by (rule retry_loop_stable [where I = ?I, OF _ body]) (use i in \<open>auto simp: obs_defs\<close>)
qed

text \<open>
  Claim C6. Once the upload returns a truthy status, that call is the last upload of the
  run and the very next event is one of those that follow the loop of Phase A (the
  success record, the failure report, or the report of a status that cannot be searched):
  no sleep, no "Retries left" line and no further attempt come between. Once the status
  poll returns anything at all, that call is the last poll and the run ends with it, or
  with it and the failure report.
\<close>

theorem success_short_circuit:
  "(\<forall>m p k st resp. vars = Some m \<and> m ''otaimagepath'' = Some p \<and>
        upload_ota_image env (image_name (abs_img_path (cwd env) p)) k = Inr (st, resp) \<and>
        truthy st \<and> k < count_list (run_trace env vars) (Call UploadImage) \<longrightarrow>
      count_list (run_trace env vars) (Call UploadImage) = Suc k \<and>
      (\<exists>pre ev post. run_trace env vars = pre @ Call UploadImage # ev # post \<and>
          (ev = InfoUploadSuccess \<or> ev = Error UpgradeFailed \<or>
           ev = Error (Unhandled TypeError)))) \<and>
   (\<forall>k v. check_ota_status env k = Inr v \<and>
        k < count_list (run_trace env vars) (Call CheckOtaStatus) \<longrightarrow>
      count_list (run_trace env vars) (Call CheckOtaStatus) = Suc k \<and>
      (\<exists>pre. run_trace env vars = pre @ [Call CheckOtaStatus] \<or>
             run_trace env vars = pre @ [Call CheckOtaStatus, Error UpgradeFailed]))"
proof -
  have partA: "count_list (run_trace env vars) (Call UploadImage) = Suc k \<and>
      (\<exists>pre ev post. run_trace env vars = pre @ Call UploadImage # ev # post \<and>
          (ev = InfoUploadSuccess \<or> ev = Error UpgradeFailed \<or>
           ev = Error (Unhandled TypeError)))"
    if a: "vars = Some m \<and> m ''otaimagepath'' = Some p \<and>
        upload_ota_image env (image_name (abs_img_path (cwd env) p)) k = Inr (st, resp) \<and>
        truthy st \<and> k < count_list (run_trace env vars) (Call UploadImage)" for m p k st resp
  proof -
    let ?s1 = "phaseA_result env p"
    have q: "ncalls UploadImage ?s1 \<le> k \<or>
            ((\<exists>pre. trace ?s1 = pre @ [Call UploadImage]) \<and>
             node_object ?s1 \<and> truthy (status ?s1) \<and> ncalls UploadImage ?s1 = Suc k)"
      unfolding phaseA_result_def
      by (rule upload_done_loop [of env _ k st resp]) (use a in \<open>auto simp: obs_defs init_locals_def\<close>)
    have fb: "count_list (trace (phaseB_result env ?s1)) (Call UploadImage) = ncalls UploadImage ?s1"
      by (subst phaseB_result_frame) (auto simp: ncalls_def)
    obtain ext where ext: "trace (phaseB_result env ?s1) = trace ?s1 @ InfoUploadSuccess # ext"
      using phaseB_result_trace by blast
    have r: "count_list (run_trace env vars) (Call UploadImage) = ncalls UploadImage ?s1 \<and>
        (node_object ?s1 \<and> truthy (status ?s1) \<longrightarrow>
          (\<exists>ev post. run_trace env vars = trace ?s1 @ ev # post \<and>
            (ev = InfoUploadSuccess \<or> ev = Error UpgradeFailed \<or>
             ev = Error (Unhandled TypeError))))"
    proof (cases rule: run_cases [of vars env])
      case no_vars
      with a show ?thesis by (simp add: run_trace_def emit_def init_locals_def)
    next
      case (no_key m')
      with a show ?thesis by (auto simp: run_trace_def emit_def init_locals_def)
    next
      case (unreadable m' nid p' e)
      with a show ?thesis by (auto simp: run_trace_def emit_def init_locals_def)
    next
      case (no_session m' nid p' b)
      with a show ?thesis by (auto simp: run_trace_def obs_defs)
    next
      case (no_status m' nid p' b)
      with a show ?thesis by (auto simp: run_trace_def obs_defs)
    next
      case (bad_status m' nid p' b)
      with a show ?thesis by (auto simp: run_trace_def obs_defs)
    next
      case (no_success m' nid p' b)
      with a show ?thesis by (auto simp: run_trace_def obs_defs)
    next
      case (phaseB_failed m' nid p' b)
      with a have [simp]: "p' = p" by simp
      from phaseB_failed a fb ext show ?thesis
        by (auto simp: run_trace_def obs_defs)
    next
      case (phaseB_done m' nid p' b)
      with a have [simp]: "p' = p" by simp
      from phaseB_done a fb ext show ?thesis
        by (auto simp: run_trace_def obs_defs)
    qed
    with a q obtain pre where pre: "trace ?s1 = pre @ [Call UploadImage]"
      and ok: "node_object ?s1" "truthy (status ?s1)" "ncalls UploadImage ?s1 = Suc k"
      by auto
    from r ok obtain ev post where "run_trace env vars = trace ?s1 @ ev # post"
      and ev: "ev = InfoUploadSuccess \<or> ev = Error UpgradeFailed \<or> ev = Error (Unhandled TypeError)"
      by blast
    with pre have tr: "run_trace env vars = pre @ Call UploadImage # ev # post" by simp
    from r ok have cnt: "count_list (run_trace env vars) (Call UploadImage) = Suc k" by simp
    from tr ev have "\<exists>pre ev post. run_trace env vars = pre @ Call UploadImage # ev # post \<and>
          (ev = InfoUploadSuccess \<or> ev = Error UpgradeFailed \<or>
           ev = Error (Unhandled TypeError))"
      by (intro exI [of _ pre] exI [of _ ev] exI [of _ post]) simp
    with cnt show ?thesis by (rule conjI)
  qed
  have partB: "count_list (run_trace env vars) (Call CheckOtaStatus) = Suc k \<and>
      (\<exists>pre. run_trace env vars = pre @ [Call CheckOtaStatus] \<or>
             run_trace env vars = pre @ [Call CheckOtaStatus, Error UpgradeFailed])"
    if a: "check_ota_status env k = Inr v \<and>
        k < count_list (run_trace env vars) (Call CheckOtaStatus)" for k v
  proof -
    have fa: "count_list (trace (phaseA_result env p)) (Call CheckOtaStatus) = 0" for p
      by (subst phaseA_result_frame) auto
    have q: "ncalls CheckOtaStatus (phaseB_result env (phaseA_result env p)) \<le> k \<or>
            ((\<exists>pre. trace (phaseB_result env (phaseA_result env p)) = pre @ [Call CheckOtaStatus]) \<and>
             ncalls CheckOtaStatus (phaseB_result env (phaseA_result env p)) = Suc k)" for p
      unfolding phaseB_result_def
      by (rule poll_done_loop [of env k v])
         (use a fa [of p] in \<open>auto simp: obs_defs enter_phaseB_def\<close>)
    show ?thesis
    proof (cases rule: run_cases [of vars env])
      case no_vars
      with a show ?thesis by (simp add: run_trace_def emit_def init_locals_def)
    next
      case (no_key m)
      with a show ?thesis by (simp add: run_trace_def emit_def init_locals_def)
    next
      case (unreadable m nid p e)
      with a show ?thesis by (simp add: run_trace_def emit_def init_locals_def)
    next
      case (no_session m nid p b)
      with a fa [of p] show ?thesis by (auto simp: run_trace_def obs_defs)
    next
      case (no_status m nid p b)
      with a fa [of p] show ?thesis by (auto simp: run_trace_def obs_defs)
    next
      case (bad_status m nid p b)
      with a fa [of p] show ?thesis by (auto simp: run_trace_def obs_defs)
    next
      case (no_success m nid p b)
      with a fa [of p] show ?thesis by (auto simp: run_trace_def obs_defs)
    next
      case (phaseB_failed m nid p b)
      with a q [of p] show ?thesis
        by (auto simp: run_trace_def obs_defs)
    next
      case (phaseB_done m nid p b)
      with a q [of p] show ?thesis
        by (auto simp: run_trace_def obs_defs)
    qed
  qed
  from partA partB show ?thesis by blast
qed

text \<open>The run in which everything succeeds at the first attempt.\<close>

theorem success_short_circuit_witness:
  "(count_list (run_trace env_ok (Some vars0)) (Call UploadImage) = Suc 0 \<and>
    (\<exists>pre ev post. run_trace env_ok (Some vars0) = pre @ Call UploadImage # ev # post \<and>
        (ev = InfoUploadSuccess \<or> ev = Error UpgradeFailed \<or>
         ev = Error (Unhandled TypeError)))) \<and>
   (count_list (run_trace env_ok (Some vars0)) (Call CheckOtaStatus) = Suc 0 \<and>
    (\<exists>pre. run_trace env_ok (Some vars0) = pre @ [Call CheckOtaStatus] \<or>
           run_trace env_ok (Some vars0) = pre @ [Call CheckOtaStatus, Error UpgradeFailed]))"
proof -
  have a: "Some vars0 = Some vars0 \<and> vars0 ''otaimagepath'' = Some ''fw.bin'' \<and>
        upload_ota_image env_ok (image_name (abs_img_path (cwd env_ok) ''fw.bin'')) 0 =
          Inr (PStr ''success'', PDict [(''image_url'', PStr ''https://x/y'')]) \<and>
        truthy (PStr ''success'') \<and>
        0 < count_list (run_trace env_ok (Some vars0)) (Call UploadImage)"
    by (simp add: run_ok) (simp add: env_ok_def vars0_def)
  have b: "check_ota_status env_ok 0 = Inr (PDict [(''ota_status'', PStr ''completed'')]) \<and>
        0 < count_list (run_trace env_ok (Some vars0)) (Call CheckOtaStatus)"
    by (simp add: run_ok) (simp add: env_ok_def)
  from a success_short_circuit [where env = env_ok and vars = "Some vars0"]
  have "count_list (run_trace env_ok (Some vars0)) (Call UploadImage) = Suc 0 \<and>
    (\<exists>pre ev post. run_trace env_ok (Some vars0) = pre @ Call UploadImage # ev # post \<and>
        (ev = InfoUploadSuccess \<or> ev = Error UpgradeFailed \<or>
         ev = Error (Unhandled TypeError)))"
    by blast
  moreover from b success_short_circuit [where env = env_ok and vars = "Some vars0"]
  have "count_list (run_trace env_ok (Some vars0)) (Call CheckOtaStatus) = Suc 0 \<and>
    (\<exists>pre. run_trace env_ok (Some vars0) = pre @ [Call CheckOtaStatus] \<or>
           run_trace env_ok (Some vars0) = pre @ [Call CheckOtaStatus, Error UpgradeFailed])"
    by blast
  ultimately show ?thesis by (rule conjI)
qed

section \<open>Outcomes\<close>

lemma retry_loop_inv:
  assumes init: "I s"
    and body: "hoare I body (bpost I Q)"
    and stable: "\<And>e s. I s \<Longrightarrow> loop_event e \<Longrightarrow> \<not> is_error e \<Longrightarrow> I (emit e s)"
    and abort: "\<And>e s. I s \<Longrightarrow> loop_event e \<Longrightarrow> is_error e \<Longrightarrow> Q (emit e s)"
    and fin: "\<And>s. I s \<Longrightarrow> Q s"
  shows "Q (retry_loop body n s)"
  using init
proof (induction n arbitrary: s)
  case 0
  then show ?case by (simp add: fin)
next
  case (Suc n)
  obtain fl s' where b: "body s = (fl, s')" by (cases "body s")
  with body Suc.prems have p: "bpost I Q fl s'" by (auto simp: hoare_def)
  have bo: "I (backoff n t)" if "I t" for t
    using that by (auto simp: backoff_def intro!: stable)
  show ?case
  proof (cases fl)
    case Next
    with p have "I s'" by (simp add: bpost_def)
    then have "Q (retry_loop body n (backoff n s'))" by (intro Suc.IH bo)
    with b Next show ?thesis by simp
  next
    case Brk
    with p b show ?thesis by (simp add: bpost_def)
  next
    case (Raise e)
    with p have i: "I s'" by (simp add: bpost_def)
    have w: "I (emit (Warn e) s')" using i by (auto intro!: stable)
    have "Q (retry_loop body n (backoff n (emit (Warn e) s')))" by (intro Suc.IH bo w)
    moreover have "Q (emit (Error SSLFailure) s')"
      using i by (auto intro!: abort)
    moreover have "Q (emit (Error (LoopFatal e)) s')"
      using i by (auto intro!: abort)
    ultimately show ?thesis using b Raise by auto
  qed
qed

lemma phaseA_keeps_ota_status:
  "ota_status (retry_loop (phaseA_try env img) n s) = ota_status s"
proof -
  let ?I = "\<lambda>t. ota_status t = ota_status s"
  let ?K = "\<lambda>fl t. if fl = Next then ?I t else bpost ?I ?I fl t"
  have "hoare ?I (phaseA_try env img) (bpost ?I ?I)"
  proof (rule hoare_phaseA [where ?P1.0 = ?I and ?P2.0 = ?I and ?P3.0 = ?I and ?P4.0 = ?I and ?P5.0 = ?I])
    show "hoare ?I (ensure_session env) ?K"
      by (auto simp: hoare_def bpost_def ensure_session_def obs_defs split: sum.splits if_splits)
    show "hoare ?I (ensure_node env) ?K"
      by (auto simp: hoare_def bpost_def ensure_node_def obs_defs split: sum.splits if_splits)
    show "hoare ?I (ensure_service_obj env) ?K"
      by (auto simp: hoare_def bpost_def ensure_service_obj_def obs_defs split: sum.splits if_splits)
    show "hoare ?I (ensure_service_config env) ?K"
      by (auto simp: hoare_def bpost_def ensure_service_config_def obs_defs Let_def split: sum.splits if_splits)
    show "hoare ?I (ensure_upload env img) ?K"
      by (auto simp: hoare_def bpost_def ensure_upload_def obs_defs Let_def split: sum.splits if_splits)
  qed (simp add: bpost_def)
  then show ?thesis
    by (rule retry_loop_stable [where I = ?I, rotated]) (auto simp: obs_defs)
qed

lemma phaseB_keeps_upload:
  "(\<lambda>t. status t = status s \<and> response t = response s \<and> node_object t = node_object s)
     (retry_loop (phaseB_try env) n s)"
proof -
  let ?I = "\<lambda>t. status t = status s \<and> response t = response s \<and> node_object t = node_object s"
  let ?K = "\<lambda>fl t. if fl = Next then ?I t else bpost ?I ?I fl t"
  have "hoare ?I (phaseB_try env) (bpost ?I ?I)"
  proof (rule hoare_phaseB [where ?P0.0 = ?I and ?P1.0 = ?I and ?P2.0 = ?I and ?P3.0 = ?I and ?P4.0 = ?I])
    show "hoare ?I (ensure_service_params env) ?K"
      by (auto simp: hoare_def bpost_def ensure_service_params_def obs_defs split: sum.splits if_splits)
    show "hoare ?I (ensure_node_params env) ?K"
      by (auto simp: hoare_def bpost_def ensure_node_params_def obs_defs split: sum.splits if_splits)
    show "hoare ?I (ensure_start env) ?K"
      by (auto simp: hoare_def bpost_def ensure_start_def obs_defs Let_def split: sum.splits if_splits)
    show "hoare ?I (ensure_status env) ?K"
      by (auto simp: hoare_def bpost_def ensure_status_def obs_defs Let_def split: sum.splits if_splits)
  qed (simp_all add: bpost_def)
  then show ?thesis
    by (rule retry_loop_stable [where I = ?I, rotated]) (auto simp: obs_defs)
qed

lemma phaseA_errors:
  assumes "\<not> failed_run (trace s)" "\<not> truthy (status s)"
  shows "truthy (status (retry_loop (phaseA_try env img) n s)) \<longrightarrow>
         \<not> failed_run (trace (retry_loop (phaseA_try env img) n s))"
proof -
  let ?I = "\<lambda>s. \<not> failed_run (trace s) \<and> \<not> truthy (status s)"
  let ?Q = "\<lambda>s. truthy (status s) \<longrightarrow> \<not> failed_run (trace s)"
  let ?K = "\<lambda>fl t. if fl = Next then ?I t else bpost ?I ?Q fl t"
  have "hoare ?I (phaseA_try env img) (bpost ?I ?Q)"
  proof (rule hoare_phaseA [where ?P1.0 = ?I and ?P2.0 = ?I and ?P3.0 = ?I and ?P4.0 = ?I and ?P5.0 = ?I])
    show "hoare ?I (ensure_session env) ?K"
      by (auto simp: hoare_def bpost_def failed_run_def ensure_session_def obs_defs split: sum.splits if_splits)
    show "hoare ?I (ensure_node env) ?K"
      by (auto simp: hoare_def bpost_def failed_run_def ensure_node_def obs_defs split: sum.splits if_splits)
    show "hoare ?I (ensure_service_obj env) ?K"
      by (auto simp: hoare_def bpost_def failed_run_def ensure_service_obj_def obs_defs split: sum.splits if_splits)
    show "hoare ?I (ensure_service_config env) ?K"
      by (auto simp: hoare_def bpost_def failed_run_def ensure_service_config_def obs_defs Let_def split: sum.splits if_splits)
    show "hoare ?I (ensure_upload env img) ?K"
      by (auto simp: hoare_def bpost_def failed_run_def ensure_upload_def obs_defs Let_def split: sum.splits if_splits)
  qed (simp add: bpost_def)
  then show ?thesis
    by (rule retry_loop_inv [where I = ?I and Q = ?Q, rotated])
       (use assms in \<open>auto simp: obs_defs failed_run_def elim: loop_event.elims\<close>)
qed

lemma phaseB_errors:
  assumes "\<not> failed_run (trace s)" "ota_status s = PNone"
  shows "(\<lambda>t. ota_status t = PNone \<or>
            (\<not> failed_run (trace t) \<and>
             (\<exists>k. ncalls CheckOtaStatus t = Suc k \<and> check_ota_status env k = Inr (ota_status t))))
         (retry_loop (phaseB_try env) n s)"
    (is "?Q (retry_loop _ n s)")
proof -
  let ?I = "\<lambda>s. \<not> failed_run (trace s) \<and> ota_status s = PNone"
  let ?K = "\<lambda>fl t. if fl = Next then ?I t else bpost ?I ?Q fl t"
  have "hoare ?I (phaseB_try env) (bpost ?I ?Q)"
  proof (rule hoare_phaseB [where ?P0.0 = ?I and ?P1.0 = ?I and ?P2.0 = ?I and ?P3.0 = ?I and ?P4.0 = ?I])
    show "hoare ?I (ensure_service_params env) ?K"
      by (auto simp: hoare_def bpost_def failed_run_def ensure_service_params_def obs_defs split: sum.splits if_splits)
    show "hoare ?I (ensure_node_params env) ?K"
      by (auto simp: hoare_def bpost_def failed_run_def ensure_node_params_def obs_defs split: sum.splits if_splits)
    show "hoare ?I (ensure_start env) ?K"
      by (auto simp: hoare_def bpost_def failed_run_def ensure_start_def obs_defs Let_def split: sum.splits if_splits)
    show "hoare ?I (ensure_status env) ?K"
      by (auto simp: hoare_def bpost_def failed_run_def ensure_status_def obs_defs Let_def split: sum.splits if_splits)
  qed (simp_all add: bpost_def)
  then show ?thesis
    by (rule retry_loop_inv [where I = ?I and Q = ?Q, rotated])
       (use assms in \<open>auto simp: obs_defs failed_run_def elim: loop_event.elims\<close>)
qed

text \<open>
  Claim C5. The command never lets an exception escape: its flow is always the normal
  one. A run logs no error exactly when both phases completed, that is, when the upload
  status is truthy and contains \<open>success\<close> and the OTA status is the value returned by the
  last poll and is neither \<open>None\<close> nor equal to \<open>False\<close>. Every other run logs an error,
  and the error is the last thing it does.
\<close>

theorem outcome_total:
  "fst (ota_upgrade env vars) = Next \<and>
   (\<not> failed_run (run_trace env vars)) = upgrade_succeeded env (snd (ota_upgrade env vars)) \<and>
   (failed_run (run_trace env vars) \<longrightarrow> (\<exists>pre m. run_trace env vars = pre @ [Error m]))"
proof -
  have a: "truthy (status (phaseA_result env p)) \<longrightarrow> \<not> failed_run (trace (phaseA_result env p))"
    and na: "ota_status (phaseA_result env p) = PNone" for p
    unfolding phaseA_result_def
    by (rule phaseA_errors, simp_all add: phaseA_keeps_ota_status)
       (simp_all add: failed_run_def obs_defs init_locals_def)
  have b: "truthy (status s1) \<Longrightarrow> \<not> failed_run (trace s1) \<Longrightarrow>
    ota_status (phaseB_result env s1) = PNone \<or>
    (\<not> failed_run (trace (phaseB_result env s1)) \<and>
     (\<exists>k. ncalls CheckOtaStatus (phaseB_result env s1) = Suc k \<and>
          check_ota_status env k = Inr (ota_status (phaseB_result env s1))))" for s1
    unfolding phaseB_result_def
    by (rule phaseB_errors) (simp_all add: failed_run_def obs_defs enter_phaseB_def)
  have k: "status (phaseB_result env s1) = status s1" for s1
    using phaseB_keeps_upload [where s = "enter_phaseB (emit InfoUploadSuccess s1)" and env = env]
    by (simp add: phaseB_result_def enter_phaseB_def emit_def)
  show ?thesis
  proof (cases rule: run_cases [of vars env])
    case no_vars
    then show ?thesis
      by (simp add: run_trace_def failed_run_def upgrade_succeeded_def emit_def init_locals_def)
  next
    case (no_key m)
    then show ?thesis
      by (simp add: run_trace_def failed_run_def upgrade_succeeded_def emit_def init_locals_def)
  next
    case (unreadable m nid p e)
    then show ?thesis
      by (simp add: run_trace_def failed_run_def upgrade_succeeded_def emit_def init_locals_def)
  next
    case (no_session m nid p b)
    with na [of p] show ?thesis
      by (simp add: run_trace_def failed_run_def upgrade_succeeded_def emit_def)
  next
    case (no_status m nid p b)
    then show ?thesis
      by (simp add: run_trace_def failed_run_def upgrade_succeeded_def emit_def)
  next
    case (bad_status m nid p b)
    then show ?thesis
      by (simp add: run_trace_def failed_run_def upgrade_succeeded_def emit_def)
  next
    case (no_success m nid p b)
    then show ?thesis
      by (simp add: run_trace_def failed_run_def upgrade_succeeded_def emit_def)
  next
    case (phaseB_failed m nid p b)
    then show ?thesis
      by (simp add: run_trace_def failed_run_def upgrade_succeeded_def emit_def)
  next
    case (phaseB_done m nid p bs)
    let ?s1 = "phaseA_result env p"
    from phaseB_done a [of p] have "\<not> failed_run (trace ?s1)" by simp
    with phaseB_done b [of ?s1] have
      "\<not> failed_run (trace (phaseB_result env ?s1)) \<and>
       (\<exists>k. ncalls CheckOtaStatus (phaseB_result env ?s1) = Suc k \<and>
          check_ota_status env k = Inr (ota_status (phaseB_result env ?s1)))"
      by auto
    with phaseB_done k [of ?s1] show ?thesis
      by (simp add: run_trace_def upgrade_succeeded_def)
  qed
qed

theorem outcome_total_witness:
  "(\<not> failed_run (run_trace env_ok (Some vars0)) \<and>
    upgrade_succeeded env_ok (snd (ota_upgrade env_ok (Some vars0)))) \<and>
   (failed_run (run_trace env_no_service (Some vars0)) \<and>
    (\<exists>pre m. run_trace env_no_service (Some vars0) = pre @ [Error m]))"
proof -
  have ok: "\<not> failed_run (run_trace env_ok (Some vars0))"
    by (simp add: run_ok failed_run_def)
  have bad: "failed_run (run_trace env_no_service (Some vars0))"
    by (simp add: run_no_service failed_run_def)
  from ok outcome_total [of env_ok "Some vars0"]
  have "upgrade_succeeded env_ok (snd (ota_upgrade env_ok (Some vars0)))" by simp
  moreover from bad outcome_total [of env_no_service "Some vars0"]
  have "\<exists>pre m. run_trace env_no_service (Some vars0) = pre @ [Error m]" by blast
  ultimately show ?thesis using ok bad by blast
qed

section \<open>Entering Phase B\<close>

lemma has_url_dict:
  "has_url r \<Longrightarrow> \<exists>kvs url. r = PDict kvs \<and> map_of kvs ''image_url'' = Some url"
  by (cases r) (auto simp: has_url_def split: option.splits)

lemma phaseA_upload_origin:
  assumes "status s = PNone \<and> response s = PNone"
  shows "(\<lambda>t. (status t = PNone \<and> response t = PNone) \<or>
              (\<exists>k. upload_ota_image env img k = Inr (status t, response t)))
         (retry_loop (phaseA_try env img) n s)"
proof -
  let ?I = "\<lambda>t. (status t = PNone \<and> response t = PNone) \<or>
              (\<exists>k. upload_ota_image env img k = Inr (status t, response t))"
  let ?K = "\<lambda>fl t. if fl = Next then ?I t else bpost ?I ?I fl t"
  have "hoare ?I (phaseA_try env img) (bpost ?I ?I)"
  proof (rule hoare_phaseA [where ?P1.0 = ?I and ?P2.0 = ?I and ?P3.0 = ?I and ?P4.0 = ?I and ?P5.0 = ?I])
    show "hoare ?I (ensure_session env) ?K"
      by (auto simp: hoare_def bpost_def ensure_session_def obs_defs split: sum.splits if_splits)
    show "hoare ?I (ensure_node env) ?K"
      by (auto simp: hoare_def bpost_def ensure_node_def obs_defs split: sum.splits if_splits)
    show "hoare ?I (ensure_service_obj env) ?K"
      by (auto simp: hoare_def bpost_def ensure_service_obj_def obs_defs split: sum.splits if_splits)
    show "hoare ?I (ensure_service_config env) ?K"
      by (auto simp: hoare_def bpost_def ensure_service_config_def obs_defs Let_def split: sum.splits if_splits)
    show "hoare ?I (ensure_upload env img) ?K"
      by (auto simp: hoare_def bpost_def ensure_upload_def obs_defs Let_def split: sum.splits if_splits)
  qed (simp add: bpost_def)
  then show ?thesis
    by (rule retry_loop_stable [where I = ?I, rotated]) (use assms in \<open>auto simp: obs_defs\<close>)
qed

lemma phaseB_needs_url:
  assumes "\<forall>st. phaseB_step st \<longrightarrow> ncalls st s = 0"
  shows "(\<lambda>t. (\<forall>st. phaseB_step st \<longrightarrow> ncalls st t = 0) \<or> has_url (response t))
         (retry_loop (phaseB_try env) n s)"
proof -
  let ?I = "\<lambda>t. (\<forall>st. phaseB_step st \<longrightarrow> ncalls st t = 0) \<or> has_url (response t)"
  let ?P = "\<lambda>t. has_url (response t)"
  let ?K = "\<lambda>fl t. if fl = Next then ?P t else bpost ?I ?I fl t"
  have "hoare ?I (phaseB_try env) (bpost ?I ?I)"
  proof (rule hoare_phaseB [where ?P0.0 = ?P and ?P1.0 = ?P and ?P2.0 = ?P and ?P3.0 = ?P and ?P4.0 = ?P])
    show "hoare ?P (ensure_service_params env) ?K"
      by (auto simp: hoare_def bpost_def ensure_service_params_def obs_defs split: sum.splits if_splits)
    show "hoare ?P (ensure_node_params env) ?K"
      by (auto simp: hoare_def bpost_def ensure_node_params_def obs_defs split: sum.splits if_splits)
    show "hoare ?P (ensure_start env) ?K"
      by (auto simp: hoare_def bpost_def ensure_start_def obs_defs Let_def split: sum.splits if_splits)
    show "hoare ?P (ensure_status env) ?K"
      by (auto simp: hoare_def bpost_def ensure_status_def obs_defs Let_def split: sum.splits if_splits)
  qed (simp_all add: bpost_def ncalls_def)
  then show ?thesis
    by (rule retry_loop_stable [where I = ?I, rotated])
       (use assms in \<open>auto simp: obs_defs elim!: loop_event.elims\<close>)
qed

text \<open>
  Claim C4. If any sub-step of Phase B (resolving the service properties, fetching the
  node parameters, starting the OTA, polling its status) is ever invoked, then Phase A
  ended with a truthy upload status that contains \<open>success\<close>, status and response are what
  an upload call returned, and the response is a dictionary with the key \<open>image_url\<close>.
  So without the firmware reference no sub-step of Phase B runs.
\<close>

theorem phaseB_entry:
  "\<forall>st. phaseB_step st \<and> Call st \<in> set (run_trace env vars) \<longrightarrow>
     truthy (status (snd (ota_upgrade env vars))) \<and>
     py_in ''success'' (status (snd (ota_upgrade env vars))) = Inr True \<and>
     (\<exists>kvs url. response (snd (ota_upgrade env vars)) = PDict kvs \<and>
        map_of kvs ''image_url'' = Some url) \<and>
     (\<exists>m p k. vars = Some m \<and> m ''otaimagepath'' = Some p \<and>
        upload_ota_image env (image_name (abs_img_path (cwd env) p)) k =
          Inr (status (snd (ota_upgrade env vars)), response (snd (ota_upgrade env vars))))"
proof (intro allI impI)
  fix st
  assume a: "phaseB_step st \<and> Call st \<in> set (run_trace env vars)"
  let ?goal = "truthy (status (snd (ota_upgrade env vars))) \<and>
     py_in ''success'' (status (snd (ota_upgrade env vars))) = Inr True \<and>
     (\<exists>kvs url. response (snd (ota_upgrade env vars)) = PDict kvs \<and>
        map_of kvs ''image_url'' = Some url) \<and>
     (\<exists>m p k. vars = Some m \<and> m ''otaimagepath'' = Some p \<and>
        upload_ota_image env (image_name (abs_img_path (cwd env) p)) k =
          Inr (status (snd (ota_upgrade env vars)), response (snd (ota_upgrade env vars))))"
  have fa: "Call st \<notin> set (trace (phaseA_result env p))" for p
  proof -
    have "count_list (trace (phaseA_result env p)) (Call st) = 0"
      using a by (subst phaseA_result_frame) (auto elim: phaseB_step.elims)
    then show ?thesis by (simp add: count_list_0_iff)
  qed
  have up: "(status (phaseA_result env p) = PNone \<and> response (phaseA_result env p) = PNone) \<or>
      (\<exists>k. upload_ota_image env (image_name (abs_img_path (cwd env) p)) k =
            Inr (status (phaseA_result env p), response (phaseA_result env p)))" for p
    unfolding phaseA_result_def
    by (rule phaseA_upload_origin) (simp add: emit_def init_locals_def)
  have keep: "status (phaseB_result env s1) = status s1 \<and> response (phaseB_result env s1) = response s1" for s1
    using phaseB_keeps_upload [where s = "enter_phaseB (emit InfoUploadSuccess s1)" and env = env]
    by (simp add: phaseB_result_def enter_phaseB_def emit_def)
  have url: "has_url (response (phaseB_result env (phaseA_result env p)))"
    if "Call st \<in> set (trace (phaseB_result env (phaseA_result env p)))" for p
  proof -
    have "(\<forall>st. phaseB_step st \<longrightarrow> ncalls st (phaseB_result env (phaseA_result env p)) = 0) \<or>
          has_url (response (phaseB_result env (phaseA_result env p)))"
      unfolding phaseB_result_def
    proof (rule phaseB_needs_url, intro allI impI)
      fix st' assume "phaseB_step st'"
      then have "count_list (trace (phaseA_result env p)) (Call st') = 0"
        by (subst phaseA_result_frame) (auto elim: phaseB_step.elims)
      then show "ncalls st' (enter_phaseB (emit InfoUploadSuccess (phaseA_result env p))) = 0"
        by (simp add: obs_defs enter_phaseB_def)
    qed
    with a that show ?thesis by (auto simp: ncalls_def count_list_0_iff)
  qed
  show ?goal
  proof (cases rule: run_cases [of vars env])
    case no_vars
    with a show ?thesis by (simp add: run_trace_def emit_def init_locals_def)
  next
    case (no_key m)
    with a show ?thesis by (auto simp: run_trace_def emit_def init_locals_def)
  next
    case (unreadable m nid p e)
    with a show ?thesis by (auto simp: run_trace_def emit_def init_locals_def)
  next
    case (no_session m nid p b)
    with a fa [of p] show ?thesis by (auto simp: run_trace_def obs_defs)
  next
    case (no_status m nid p b)
    with a fa [of p] show ?thesis by (auto simp: run_trace_def obs_defs)
  next
    case (bad_status m nid p b)
    with a fa [of p] show ?thesis by (auto simp: run_trace_def obs_defs)
  next
    case (no_success m nid p b)
    with a fa [of p] show ?thesis by (auto simp: run_trace_def obs_defs)
  next
    case (phaseB_failed m nid p b)
    with a have "Call st \<in> set (trace (phaseB_result env (phaseA_result env p)))"
      by (auto simp: run_trace_def emit_def)
    from url [OF this] have "\<exists>kvs url. response (phaseB_result env (phaseA_result env p)) = PDict kvs \<and>
        map_of kvs ''image_url'' = Some url"
      by (rule has_url_dict)
    with phaseB_failed up [of p] keep [of "phaseA_result env p"] show ?thesis
      by (auto simp: emit_def)
  next
    case (phaseB_done m nid p b)
    with a have "Call st \<in> set (trace (phaseB_result env (phaseA_result env p)))"
      by (auto simp: run_trace_def emit_def)
    from url [OF this] have "\<exists>kvs url. response (phaseB_result env (phaseA_result env p)) = PDict kvs \<and>
        map_of kvs ''image_url'' = Some url"
      by (rule has_url_dict)
    with phaseB_done up [of p] keep [of "phaseA_result env p"] show ?thesis
      by (auto simp: emit_def)
  qed
qed

text \<open>
  In the run where everything succeeds the start command is issued and the response has
  the reference; with an upload response without \<open>image_url\<close> the loop of Phase B spends
  its budget without calling anything.
\<close>

lemma run_no_url:
  "run_trace env_no_url (Some vars0) =
     [ReadFile ''/home/u/fw.bin'', Call NewSession, Call NewNode, Call NewService,
      Call VerifyService, Call UploadImage, InfoUploadSuccess,
      Sleep 5, RetriesLeft 4, Sleep 5, RetriesLeft 3, Sleep 5, RetriesLeft 2,
      Sleep 5, RetriesLeft 1, Sleep 5, Error UpgradeFailed]"
  by (simp add: run_defs env_no_url_def env_ok_def vars0_def)

theorem phaseB_entry_witness:
  "(Call StartOta \<in> set (run_trace env_ok (Some vars0)) \<and>
    (\<exists>kvs url. response (snd (ota_upgrade env_ok (Some vars0))) = PDict kvs \<and>
        map_of kvs ''image_url'' = Some url)) \<and>
   Call StartOta \<notin> set (run_trace env_no_url (Some vars0))"
proof -
  have a: "phaseB_step StartOta \<and> Call StartOta \<in> set (run_trace env_ok (Some vars0))"
    by (simp add: run_ok)
  with phaseB_entry [of env_ok "Some vars0"]
  have "\<exists>kvs url. response (snd (ota_upgrade env_ok (Some vars0))) = PDict kvs \<and>
        map_of kvs ''image_url'' = Some url"
    by blast
  moreover have "Call StartOta \<notin> set (run_trace env_no_url (Some vars0))"
    by (simp add: run_no_url)
  ultimately show ?thesis using a by blast
qed

section \<open>Reading the image file\<close>

lemma phaseA_prefix: "prefix (trace s) (trace (retry_loop (phaseA_try env img) n s))"
proof -
  let ?I = "\<lambda>t. prefix (trace s) (trace t)"
  let ?K = "\<lambda>fl t. if fl = Next then ?I t else bpost ?I ?I fl t"
  have "hoare ?I (phaseA_try env img) (bpost ?I ?I)"
  proof (rule hoare_phaseA [where ?P1.0 = ?I and ?P2.0 = ?I and ?P3.0 = ?I and ?P4.0 = ?I and ?P5.0 = ?I])
    show "hoare ?I (ensure_session env) ?K"
      by (auto simp: hoare_def bpost_def ensure_session_def obs_defs split: sum.splits if_splits)
    show "hoare ?I (ensure_node env) ?K"
      by (auto simp: hoare_def bpost_def ensure_node_def obs_defs split: sum.splits if_splits)
    show "hoare ?I (ensure_service_obj env) ?K"
      by (auto simp: hoare_def bpost_def ensure_service_obj_def obs_defs split: sum.splits if_splits)
    show "hoare ?I (ensure_service_config env) ?K"
      by (auto simp: hoare_def bpost_def ensure_service_config_def obs_defs Let_def split: sum.splits if_splits)
    show "hoare ?I (ensure_upload env img) ?K"
      by (auto simp: hoare_def bpost_def ensure_upload_def obs_defs Let_def split: sum.splits if_splits)
  qed (simp add: bpost_def)
  then show ?thesis
    by (rule retry_loop_stable [where I = ?I, rotated]) (auto simp: obs_defs)
qed

lemma phaseA_result_trace:
  "\<exists>ext. trace (phaseA_result env p) = ReadFile (abs_img_path (cwd env) p) # ext"
proof -
  have "prefix [ReadFile (abs_img_path (cwd env) p)] (trace (phaseA_result env p))"
    using phaseA_prefix [of "emit (ReadFile (abs_img_path (cwd env) p)) init_locals" env]
    by (simp add: phaseA_result_def emit_def init_locals_def)
  then show ?thesis by (auto simp: prefix_def)
qed

lemma run_reads_once:
  assumes v: "vars = Some m" "m ''nodeid'' = Some nid" "m ''otaimagepath'' = Some p"
  shows "\<exists>rest. run_trace env vars = ReadFile (abs_img_path (cwd env) p) # rest \<and>
           (\<forall>q. ReadFile q \<notin> set rest)"
proof -
  let ?path = "abs_img_path (cwd env) p"
  let ?s1 = "phaseA_result env p"
  have ca: "count_list (trace ?s1) (ReadFile q) = count_list [ReadFile ?path] (ReadFile q)" for q
    by (rule phaseA_result_frame) auto
  have cb: "count_list (trace (phaseB_result env ?s1)) (ReadFile q) =
            count_list [ReadFile ?path] (ReadFile q)" for q
    by (subst phaseB_result_frame) (auto simp: ca)
  obtain ext where ext: "trace ?s1 = ReadFile ?path # ext"
    using phaseA_result_trace by blast
  obtain ext2 where ext2: "trace (phaseB_result env ?s1) = trace ?s1 @ InfoUploadSuccess # ext2"
    using phaseB_result_trace by blast
  have ex: "\<exists>rest. run_trace env vars = ReadFile ?path # rest"
  proof (cases rule: run_cases [of vars env])
    case no_vars
    with v show ?thesis by simp
  next
    case (no_key m')
    with v show ?thesis by auto
  next
    case (unreadable m' nid' p' e)
    with v show ?thesis by (auto simp: run_trace_def emit_def init_locals_def)
  next
    case (no_session m' nid' p' b)
    with v ext show ?thesis by (auto simp: run_trace_def emit_def)
  next
    case (no_status m' nid' p' b)
    with v ext show ?thesis by (auto simp: run_trace_def emit_def)
  next
    case (bad_status m' nid' p' b)
    with v ext show ?thesis by (auto simp: run_trace_def emit_def)
  next
    case (no_success m' nid' p' b)
    with v ext show ?thesis by (auto simp: run_trace_def emit_def)
  next
    case (phaseB_failed m' nid' p' b)
    with v ext ext2 show ?thesis by (auto simp: run_trace_def emit_def)
  next
    case (phaseB_done m' nid' p' b)
    with v ext ext2 show ?thesis by (auto simp: run_trace_def emit_def)
  qed
  have cnt: "count_list (run_trace env vars) (ReadFile q) = count_list [ReadFile ?path] (ReadFile q)" for q
  proof (cases rule: run_cases [of vars env])
    case no_vars
    with v show ?thesis by simp
  next
    case (no_key m')
    with v show ?thesis by auto
  next
    case (unreadable m' nid' p' e)
    with v show ?thesis by (auto simp: run_trace_def emit_def init_locals_def)
  next
    case (no_session m' nid' p' b)
    with v ca [of q] show ?thesis by (auto simp: run_trace_def emit_def)
  next
    case (no_status m' nid' p' b)
    with v ca [of q] show ?thesis by (auto simp: run_trace_def emit_def)
  next
    case (bad_status m' nid' p' b)
    with v ca [of q] show ?thesis by (auto simp: run_trace_def emit_def)
  next
    case (no_success m' nid' p' b)
    with v ca [of q] show ?thesis by (auto simp: run_trace_def emit_def)
  next
    case (phaseB_failed m' nid' p' b)
    with v cb [of q] show ?thesis by (auto simp: run_trace_def emit_def)
  next
    case (phaseB_done m' nid' p' b)
    with v cb [of q] show ?thesis by (auto simp: run_trace_def emit_def)
  qed
  from ex cnt have "(\<exists>rest. run_trace env vars = ReadFile ?path # rest) \<and>
        (\<forall>q. count_list (run_trace env vars) (ReadFile q) = count_list [ReadFile ?path] (ReadFile q))"
    by blast
  then obtain rest where r: "run_trace env vars = ReadFile ?path # rest"
    and c: "\<And>q. count_list (run_trace env vars) (ReadFile q) = count_list [ReadFile ?path] (ReadFile q)"
    by blast
  have "ReadFile q \<notin> set rest" for q
  proof -
    from c [of q] r have "count_list rest (ReadFile q) = 0" by (simp split: if_splits)
    then show ?thesis by (simp add: count_list_0_iff)
  qed
  with r show ?thesis by blast
qed

text \<open>
  Claim C8. With both arguments present, the run opens and reads exactly one file, and
  does so before anything else: the trace starts with that read and holds no other. The
  file is the given path when it is absolute, and the path joined to the current working
  directory when it is relative. If opening or reading raises, the run consists of the
  read and one error record: no attempt of any sub-step and no sleep.
\<close>

theorem image_file_read:
  "vars = Some m \<and> m ''nodeid'' = Some nid \<and> m ''otaimagepath'' = Some p \<longrightarrow>
     (\<exists>path rest. run_trace env vars = ReadFile path # rest \<and>
        (\<forall>q. ReadFile q \<notin> set rest) \<and>
        (isabs p \<longrightarrow> path = p) \<and>
        (\<not> isabs p \<longrightarrow>
           path = (if cwd env = [] \<or> last (cwd env) = CHR ''/'' then cwd env @ p
                   else cwd env @ ''/'' @ p)) \<and>
        (\<forall>e. read_file env path = Inl e \<longrightarrow> (\<exists>msg. rest = [Error msg])))"
proof
  assume v: "vars = Some m \<and> m ''nodeid'' = Some nid \<and> m ''otaimagepath'' = Some p"
  let ?path = "abs_img_path (cwd env) p"
  from v run_reads_once [of vars m nid p env]
  obtain rest where r: "run_trace env vars = ReadFile ?path # rest" "\<forall>q. ReadFile q \<notin> set rest"
    by blast
  have abs: "isabs p \<longrightarrow> ?path = p"
    by (simp add: abs_img_path_def)
  have rel: "\<not> isabs p \<longrightarrow>
           ?path = (if cwd env = [] \<or> last (cwd env) = CHR ''/'' then cwd env @ p
                   else cwd env @ ''/'' @ p)"
    by (simp add: abs_img_path_def path_join_def isabs_def)
  have err: "\<exists>msg. rest = [Error msg]" if e: "read_file env ?path = Inl e" for e
  proof (cases rule: run_cases [of vars env])
    case (unreadable m' nid' p' e')
    with v r show ?thesis by (auto simp: run_trace_def emit_def init_locals_def)
  qed (use v e in auto)
  from r abs rel err show "\<exists>path rest. run_trace env vars = ReadFile path # rest \<and>
        (\<forall>q. ReadFile q \<notin> set rest) \<and>
        (isabs p \<longrightarrow> path = p) \<and>
        (\<not> isabs p \<longrightarrow>
           path = (if cwd env = [] \<or> last (cwd env) = CHR ''/'' then cwd env @ p
                   else cwd env @ ''/'' @ p)) \<and>
        (\<forall>e. read_file env path = Inl e \<longrightarrow> (\<exists>msg. rest = [Error msg]))"
    by blast
qed

text \<open>
  A relative path is read from the working directory; an absolute path that cannot be
  read ends the run with the read and one error.
\<close>

theorem image_file_read_witness:
  "(\<exists>rest. run_trace env_ok (Some vars0) = ReadFile ''/home/u/fw.bin'' # rest \<and>
      (\<forall>q. ReadFile q \<notin> set rest)) \<and>
   (\<exists>msg. run_trace env_unreadable (Some vars_abs) = [ReadFile ''/tmp/fw.bin'', Error msg])"
proof
  have h: "Some vars0 = Some vars0 \<and> vars0 ''nodeid'' = Some ''N1'' \<and>
           vars0 ''otaimagepath'' = Some ''fw.bin''"
    by (simp add: vars0_def)
  from image_file_read [where vars = "Some vars0" and env = env_ok, THEN mp, OF h]
  obtain path rest where c: "run_trace env_ok (Some vars0) = ReadFile path # rest \<and>
        (\<forall>q. ReadFile q \<notin> set rest) \<and>
        (isabs ''fw.bin'' \<longrightarrow> path = ''fw.bin'') \<and>
        (\<not> isabs ''fw.bin'' \<longrightarrow>
           path = (if cwd env_ok = [] \<or> last (cwd env_ok) = CHR ''/'' then cwd env_ok @ ''fw.bin''
                   else cwd env_ok @ ''/'' @ ''fw.bin'')) \<and>
        (\<forall>e. read_file env_ok path = Inl e \<longrightarrow> (\<exists>msg. rest = [Error msg]))"
    by (elim exE) (erule that)
  then have "path = ''/home/u/fw.bin''" by (simp add: isabs_def env_ok_def)
  with c show "\<exists>rest. run_trace env_ok (Some vars0) = ReadFile ''/home/u/fw.bin'' # rest \<and>
      (\<forall>q. ReadFile q \<notin> set rest)"
    by (intro exI [of _ rest]) simp
next
  have h: "Some vars_abs = Some vars_abs \<and> vars_abs ''nodeid'' = Some ''N1'' \<and>
           vars_abs ''otaimagepath'' = Some ''/tmp/fw.bin''"
    by (simp add: vars_abs_def)
  from image_file_read [where vars = "Some vars_abs" and env = env_unreadable, THEN mp, OF h]
  obtain path rest where c: "run_trace env_unreadable (Some vars_abs) = ReadFile path # rest \<and>
        (\<forall>q. ReadFile q \<notin> set rest) \<and>
        (isabs ''/tmp/fw.bin'' \<longrightarrow> path = ''/tmp/fw.bin'') \<and>
        (\<not> isabs ''/tmp/fw.bin'' \<longrightarrow>
           path = (if cwd env_unreadable = [] \<or> last (cwd env_unreadable) = CHR ''/''
                   then cwd env_unreadable @ ''/tmp/fw.bin''
                   else cwd env_unreadable @ ''/'' @ ''/tmp/fw.bin'')) \<and>
        (\<forall>e. read_file env_unreadable path = Inl e \<longrightarrow> (\<exists>msg. rest = [Error msg]))"
    by (elim exE) (erule that)
  then have p: "path = ''/tmp/fw.bin''" by (simp add: isabs_def)
  have "read_file env_unreadable path = Inl OSError"
    by (simp add: env_unreadable_def)
  with c obtain msg where "rest = [Error msg]" by blast
  with c p show "\<exists>msg. run_trace env_unreadable (Some vars_abs) = [ReadFile ''/tmp/fw.bin'', Error msg]"
    by (intro exI [of _ msg]) simp
qed

section \<open>Memoization\<close>

lemma memo_inv_call:
  assumes inv: "memo_inv env img s" and nc: "\<not> cached X s"
    and calls: "\<And>st. ncalls st s' = (if st = X then Suc (ncalls X s) else ncalls st s)"
    and others: "\<And>st. st \<noteq> X \<Longrightarrow> cached st s' = cached st s"
    and new: "cacheable env img X (ncalls X s) \<Longrightarrow> cached X s'"
  shows "memo_inv env img s'"
  unfolding memo_inv_def
proof (intro allI impI)
  fix st k
  assume a: "k < ncalls st s' \<and> cacheable env img st k"
  show "Suc k = ncalls st s' \<and> cached st s'"
  proof (cases "st = X")
    case False
    with a calls [of st] have "k < ncalls st s" by simp
    with a inv have "Suc k = ncalls st s \<and> cached st s" unfolding memo_inv_def by blast
    with False calls [of st] others [of st] show ?thesis by simp
  next
    case True
    have "\<not> k < ncalls X s"
    proof
      assume "k < ncalls X s"
      with a True inv have "cached X s" unfolding memo_inv_def by blast
      with nc show False by simp
    qed
    with a True calls [of X] have k: "k = ncalls X s" by simp
    with a True new have "cached X s'" by simp
    with k True calls [of X] show ?thesis by simp
  qed
qed

lemma memo_inv_same:
  assumes inv: "memo_inv env img s"
    and calls: "\<And>st. ncalls st s' = ncalls st s"
    and same: "\<And>st. cached st s' = cached st s"
  shows "memo_inv env img s'"
  using inv unfolding memo_inv_def by (simp add: calls same)

lemma memo_session: "hoare (memo_inv env img) (ensure_session env) (\<lambda>fl. memo_inv env img)"
  unfolding hoare_def
proof (intro allI impI)
  fix s fl s'
  assume a: "memo_inv env img s \<and> ensure_session env s = (fl, s')"
  show "memo_inv env img s'"
  proof (cases "cached NewSession s")
    case True
    with a show ?thesis by (auto simp: ensure_session_def)
  next
    case False
    show ?thesis
    proof (rule memo_inv_call [where X = NewSession and s = s])
      fix st
      show "ncalls st s' = (if st = NewSession then Suc (ncalls NewSession s) else ncalls st s)"
        using a False
        by (auto simp: ensure_session_def obs_defs Let_def split: sum.splits prod.splits if_splits)
      show "cached st s' = cached st s" if "st \<noteq> NewSession"
        using a False that
        by (cases st) (auto simp: ensure_session_def obs_defs Let_def split: sum.splits prod.splits if_splits)
    next
      show "cached NewSession s'" if "cacheable env img NewSession (ncalls NewSession s)"
        using a False that
        by (auto simp: ensure_session_def obs_defs Let_def split: sum.splits prod.splits if_splits)
    qed (use a False in auto)
  qed
qed

lemma memo_node: "hoare (memo_inv env img) (ensure_node env) (\<lambda>fl. memo_inv env img)"
  unfolding hoare_def
proof (intro allI impI)
  fix s fl s'
  assume a: "memo_inv env img s \<and> ensure_node env s = (fl, s')"
  show "memo_inv env img s'"
  proof (cases "cached NewNode s")
    case True
    with a show ?thesis by (auto simp: ensure_node_def)
  next
    case False
    show ?thesis
    proof (rule memo_inv_call [where X = NewNode and s = s])
      fix st
      show "ncalls st s' = (if st = NewNode then Suc (ncalls NewNode s) else ncalls st s)"
        using a False
        by (auto simp: ensure_node_def obs_defs Let_def split: sum.splits prod.splits if_splits)
      show "cached st s' = cached st s" if "st \<noteq> NewNode"
        using a False that
        by (cases st) (auto simp: ensure_node_def obs_defs Let_def split: sum.splits prod.splits if_splits)
    next
      show "cached NewNode s'" if "cacheable env img NewNode (ncalls NewNode s)"
        using a False that
        by (auto simp: ensure_node_def obs_defs Let_def split: sum.splits prod.splits if_splits)
    qed (use a False in auto)
  qed
qed

lemma memo_service_obj: "hoare (memo_inv env img) (ensure_service_obj env) (\<lambda>fl. memo_inv env img)"
  unfolding hoare_def
proof (intro allI impI)
  fix s fl s'
  assume a: "memo_inv env img s \<and> ensure_service_obj env s = (fl, s')"
  show "memo_inv env img s'"
  proof (cases "cached NewService s")
    case True
    with a show ?thesis by (auto simp: ensure_service_obj_def)
  next
    case False
    show ?thesis
    proof (rule memo_inv_call [where X = NewService and s = s])
      fix st
      show "ncalls st s' = (if st = NewService then Suc (ncalls NewService s) else ncalls st s)"
        using a False
        by (auto simp: ensure_service_obj_def obs_defs Let_def split: sum.splits prod.splits if_splits)
      show "cached st s' = cached st s" if "st \<noteq> NewService"
        using a False that
        by (cases st) (auto simp: ensure_service_obj_def obs_defs Let_def split: sum.splits prod.splits if_splits)
    next
      show "cached NewService s'" if "cacheable env img NewService (ncalls NewService s)"
        using a False that
        by (auto simp: ensure_service_obj_def obs_defs Let_def split: sum.splits prod.splits if_splits)
    qed (use a False in auto)
  qed
qed

lemma memo_service_config: "hoare (memo_inv env img) (ensure_service_config env) (\<lambda>fl. memo_inv env img)"
  unfolding hoare_def
proof (intro allI impI)
  fix s fl s'
  assume a: "memo_inv env img s \<and> ensure_service_config env s = (fl, s')"
  show "memo_inv env img s'"
  proof (cases "cached VerifyService s")
    case True
    with a show ?thesis by (auto simp: ensure_service_config_def)
  next
    case False
    show ?thesis
    proof (rule memo_inv_call [where X = VerifyService and s = s])
      fix st
      show "ncalls st s' = (if st = VerifyService then Suc (ncalls VerifyService s) else ncalls st s)"
        using a False
        by (auto simp: ensure_service_config_def obs_defs Let_def split: sum.splits prod.splits if_splits)
      show "cached st s' = cached st s" if "st \<noteq> VerifyService"
        using a False that
        by (cases st) (auto simp: ensure_service_config_def obs_defs Let_def split: sum.splits prod.splits if_splits)
    next
      show "cached VerifyService s'" if "cacheable env img VerifyService (ncalls VerifyService s)"
        using a False that
        by (auto simp: ensure_service_config_def obs_defs Let_def split: sum.splits prod.splits if_splits)
    qed (use a False in auto)
  qed
qed

lemma memo_upload: "hoare (memo_inv env img) (ensure_upload env img) (\<lambda>fl. memo_inv env img)"
  unfolding hoare_def
proof (intro allI impI)
  fix s fl s'
  assume a: "memo_inv env img s \<and> ensure_upload env img s = (fl, s')"
  show "memo_inv env img s'"
  proof (cases "cached UploadImage s")
    case True
    with a show ?thesis by (auto simp: ensure_upload_def)
  next
    case False
    show ?thesis
    proof (rule memo_inv_call [where X = UploadImage and s = s])
      fix st
      show "ncalls st s' = (if st = UploadImage then Suc (ncalls UploadImage s) else ncalls st s)"
        using a False
        by (auto simp: ensure_upload_def obs_defs Let_def split: sum.splits prod.splits if_splits)
      show "cached st s' = cached st s" if "st \<noteq> UploadImage"
        using a False that
        by (cases st) (auto simp: ensure_upload_def obs_defs Let_def split: sum.splits prod.splits if_splits)
    next
      show "cached UploadImage s'" if "cacheable env img UploadImage (ncalls UploadImage s)"
        using a False that
        by (auto simp: ensure_upload_def obs_defs Let_def split: sum.splits prod.splits if_splits)
    qed (use a False in auto)
  qed
qed

lemma memo_service_params: "hoare (memo_inv env img) (ensure_service_params env) (\<lambda>fl. memo_inv env img)"
  unfolding hoare_def
proof (intro allI impI)
  fix s fl s'
  assume a: "memo_inv env img s \<and> ensure_service_params env s = (fl, s')"
  show "memo_inv env img s'"
  proof (cases "cached GetServiceParams s")
    case True
    with a show ?thesis by (auto simp: ensure_service_params_def)
  next
    case False
    show ?thesis
    proof (rule memo_inv_call [where X = GetServiceParams and s = s])
      fix st
      show "ncalls st s' = (if st = GetServiceParams then Suc (ncalls GetServiceParams s) else ncalls st s)"
        using a False
        by (auto simp: ensure_service_params_def obs_defs Let_def split: sum.splits prod.splits if_splits)
      show "cached st s' = cached st s" if "st \<noteq> GetServiceParams"
        using a False that
        by (cases st) (auto simp: ensure_service_params_def obs_defs Let_def split: sum.splits prod.splits if_splits)
    next
      show "cached GetServiceParams s'" if "cacheable env img GetServiceParams (ncalls GetServiceParams s)"
        using a False that
        by (auto simp: ensure_service_params_def obs_defs Let_def split: sum.splits prod.splits if_splits)
    qed (use a False in auto)
  qed
qed

lemma memo_node_params: "hoare (memo_inv env img) (ensure_node_params env) (\<lambda>fl. memo_inv env img)"
  unfolding hoare_def
proof (intro allI impI)
  fix s fl s'
  assume a: "memo_inv env img s \<and> ensure_node_params env s = (fl, s')"
  show "memo_inv env img s'"
  proof (cases "cached GetNodeParams s")
    case True
    with a show ?thesis by (auto simp: ensure_node_params_def)
  next
    case False
    show ?thesis
    proof (rule memo_inv_call [where X = GetNodeParams and s = s])
      fix st
      show "ncalls st s' = (if st = GetNodeParams then Suc (ncalls GetNodeParams s) else ncalls st s)"
        using a False
        by (auto simp: ensure_node_params_def obs_defs Let_def split: sum.splits prod.splits if_splits)
      show "cached st s' = cached st s" if "st \<noteq> GetNodeParams"
        using a False that
        by (cases st) (auto simp: ensure_node_params_def obs_defs Let_def split: sum.splits prod.splits if_splits)
    next
      show "cached GetNodeParams s'" if "cacheable env img GetNodeParams (ncalls GetNodeParams s)"
        using a False that
        by (auto simp: ensure_node_params_def obs_defs Let_def split: sum.splits prod.splits if_splits)
    qed (use a False in auto)
  qed
qed

lemma memo_start: "hoare (memo_inv env img) (ensure_start env) (\<lambda>fl. memo_inv env img)"
  unfolding hoare_def
proof (intro allI impI)
  fix s fl s'
  assume a: "memo_inv env img s \<and> ensure_start env s = (fl, s')"
  show "memo_inv env img s'"
  proof (cases "cached StartOta s")
    case True
    with a show ?thesis by (auto simp: ensure_start_def)
  next
    case False
    show ?thesis
    proof (rule memo_inv_call [where X = StartOta and s = s])
      fix st
      show "ncalls st s' = (if st = StartOta then Suc (ncalls StartOta s) else ncalls st s)"
        using a False
        by (auto simp: ensure_start_def obs_defs Let_def split: sum.splits prod.splits if_splits)
      show "cached st s' = cached st s" if "st \<noteq> StartOta"
        using a False that
        by (cases st) (auto simp: ensure_start_def obs_defs Let_def split: sum.splits prod.splits if_splits)
    next
      show "cached StartOta s'" if "cacheable env img StartOta (ncalls StartOta s)"
        using a False that
        by (auto simp: ensure_start_def obs_defs Let_def split: sum.splits prod.splits if_splits)
    qed (use a False in auto)
  qed
qed

lemma memo_status: "hoare (memo_inv env img) (ensure_status env) (\<lambda>fl. memo_inv env img)"
  unfolding hoare_def
proof (intro allI impI)
  fix s fl s'
  assume a: "memo_inv env img s \<and> ensure_status env s = (fl, s')"
  show "memo_inv env img s'"
  proof (cases "cached CheckOtaStatus s")
    case True
    with a show ?thesis by (auto simp: ensure_status_def)
  next
    case False
    show ?thesis
    proof (rule memo_inv_call [where X = CheckOtaStatus and s = s])
      fix st
      show "ncalls st s' = (if st = CheckOtaStatus then Suc (ncalls CheckOtaStatus s) else ncalls st s)"
        using a False
        by (auto simp: ensure_status_def obs_defs Let_def split: sum.splits prod.splits if_splits)
      show "cached st s' = cached st s" if "st \<noteq> CheckOtaStatus"
        using a False that
        by (cases st) (auto simp: ensure_status_def obs_defs Let_def split: sum.splits prod.splits if_splits)
    next
      show "cached CheckOtaStatus s'" if "cacheable env img CheckOtaStatus (ncalls CheckOtaStatus s)"
        using a False that
        by (auto simp: ensure_status_def obs_defs Let_def split: sum.splits prod.splits if_splits)
    qed (use a False in auto)
  qed
qed

lemma hoare_post: "hoare P f B \<Longrightarrow> (\<And>fl s. B fl s \<Longrightarrow> B' fl s) \<Longrightarrow> hoare P f B'"
  by (auto simp: hoare_def)

lemma memo_emit: "memo_inv env img s \<Longrightarrow> \<not> (\<exists>st. e = Call st) \<Longrightarrow> memo_inv env img (emit e s)"
proof (erule memo_inv_same)
  fix st
  assume "\<not> (\<exists>st. e = Call st)"
  then show "ncalls st (emit e s) = ncalls st s" by (auto simp: obs_defs)
  show "cached st (emit e s) = cached st s" by (cases st) (simp_all add: emit_def)
qed

lemma memo_phaseA:
  assumes "memo_inv env img s"
  shows "memo_inv env img (retry_loop (phaseA_try env img) n s)"
proof -
  let ?I = "memo_inv env img"
  have "hoare ?I (phaseA_try env img) (bpost ?I ?I)"
    by (rule hoare_phaseA [where ?P1.0 = ?I and ?P2.0 = ?I and ?P3.0 = ?I and ?P4.0 = ?I and ?P5.0 = ?I])
       (rule hoare_post [OF memo_session] hoare_post [OF memo_node]
          hoare_post [OF memo_service_obj] hoare_post [OF memo_service_config]
          hoare_post [OF memo_upload], simp_all add: bpost_def split: flow.splits)+
  then show ?thesis
    by (rule retry_loop_stable [where I = ?I, rotated])
       (use assms in \<open>auto intro!: memo_emit elim: loop_event.elims\<close>)
qed

lemma memo_url: "memo_inv env img s \<Longrightarrow> memo_inv env img (s\<lparr>param_url_to_set := u\<rparr>)"
proof (erule memo_inv_same)
  fix st
  show "ncalls st (s\<lparr>param_url_to_set := u\<rparr>) = ncalls st s" by (simp add: ncalls_def)
  show "cached st (s\<lparr>param_url_to_set := u\<rparr>) = cached st s" by (cases st) simp_all
qed

lemma memo_phaseB:
  assumes "memo_inv env img s"
  shows "memo_inv env img (retry_loop (phaseB_try env) n s)"
proof -
  let ?I = "memo_inv env img"
  have "hoare ?I (phaseB_try env) (bpost ?I ?I)"
    by (rule hoare_phaseB [where ?P0.0 = ?I and ?P1.0 = ?I and ?P2.0 = ?I and ?P3.0 = ?I and ?P4.0 = ?I])
       (rule hoare_post [OF memo_service_params] hoare_post [OF memo_node_params]
          hoare_post [OF memo_start] hoare_post [OF memo_status] memo_url,
        simp_all add: bpost_def split: flow.splits)+
  then show ?thesis
    by (rule retry_loop_stable [where I = ?I, rotated])
       (use assms in \<open>auto intro!: memo_emit elim: loop_event.elims\<close>)
qed

lemma memo_enter_phaseB:
  assumes inv: "memo_inv env img s"
    and fresh: "\<And>st. phaseB_step st \<Longrightarrow> ncalls st s = 0"
  shows "memo_inv env img (enter_phaseB (emit InfoUploadSuccess s))"
  unfolding memo_inv_def
proof (intro allI impI)
  fix st k
  let ?t = "enter_phaseB (emit InfoUploadSuccess s)"
  assume a: "k < ncalls st ?t \<and> cacheable env img st k"
  have n: "ncalls st ?t = ncalls st s" by (simp add: obs_defs enter_phaseB_def)
  show "Suc k = ncalls st ?t \<and> cached st ?t"
  proof (cases "phaseB_step st")
    case True
    with a n fresh [of st] show ?thesis by simp
  next
    case False
    then have "cached st ?t = cached st s"
      by (cases st) (simp_all add: emit_def enter_phaseB_def)
    moreover from a n inv have "Suc k = ncalls st s \<and> cached st s"
      unfolding memo_inv_def by auto
    ultimately show ?thesis using n by simp
  qed
qed

lemma memo_phaseA_result:
  "memo_inv env (image_name (abs_img_path (cwd env) p)) (phaseA_result env p)"
  unfolding phaseA_result_def
  by (rule memo_phaseA) (simp add: memo_inv_def obs_defs init_locals_def)

lemma memo_phaseB_result:
  "memo_inv env (image_name (abs_img_path (cwd env) p)) (phaseB_result env (phaseA_result env p))"
  unfolding phaseB_result_def
proof (rule memo_phaseB, rule memo_enter_phaseB [OF memo_phaseA_result])
  fix st assume "phaseB_step st"
  then have "count_list (trace (phaseA_result env p)) (Call st) = 0"
    by (subst phaseA_result_frame) (auto elim: phaseB_step.elims)
  then show "ncalls st (phaseA_result env p) = 0" by (simp add: ncalls_def)
qed

text \<open>
  Claim C1, as amended. Whenever an invocation of a sub-step returns a truthy result
  (for the sub-steps that return a pair: a pair with at least one truthy component; for
  the three constructors: an object), that invocation is the last one of the sub-step in
  the run. Nothing is said about a sub-step that returned only falsy values.
\<close>

theorem memoized_truthy:
  "\<forall>st k. cacheable env (run_image_name env vars) st k \<and>
      k < count_list (run_trace env vars) (Call st) \<longrightarrow>
    count_list (run_trace env vars) (Call st) = Suc k"
proof (intro allI impI)
  fix st k
  assume a: "cacheable env (run_image_name env vars) st k \<and>
      k < count_list (run_trace env vars) (Call st)"
  have fin: "count_list (trace (emit (Error x) s)) (Call st) = Suc k"
    if "memo_inv env (run_image_name env vars) s"
      "run_trace env vars = trace (emit (Error x) s)" for s x
  proof -
    from that(2) a have "k < ncalls st s" by (simp add: obs_defs)
    with that(1) a have "Suc k = ncalls st s" unfolding memo_inv_def by blast
    then show ?thesis by (simp add: obs_defs)
  qed
  show "count_list (run_trace env vars) (Call st) = Suc k"
  proof (cases rule: run_cases [of vars env])
    case no_vars
    with a show ?thesis by (simp add: run_trace_def emit_def init_locals_def)
  next
    case (no_key m)
    with a show ?thesis by (simp add: run_trace_def emit_def init_locals_def)
  next
    case (unreadable m nid p e)
    with a show ?thesis by (simp add: run_trace_def emit_def init_locals_def)
  next
    case (no_session m nid p b)
    then have "run_trace env vars = trace (emit (Error SessionInitFailed) (phaseA_result env p))"
      and "run_image_name env vars = image_name (abs_img_path (cwd env) p)"
      by (simp_all add: run_trace_def run_image_name_def)
    with fin [of "phaseA_result env p"] memo_phaseA_result [of env p] show ?thesis by simp
  next
    case (no_status m nid p b)
    then have "run_trace env vars = trace (emit (Error UpgradeFailed) (phaseA_result env p))"
      and "run_image_name env vars = image_name (abs_img_path (cwd env) p)"
      by (simp_all add: run_trace_def run_image_name_def)
    with fin [of "phaseA_result env p"] memo_phaseA_result [of env p] show ?thesis by simp
  next
    case (bad_status m nid p b)
    then have "run_trace env vars = trace (emit (Error (Unhandled TypeError)) (phaseA_result env p))"
      and "run_image_name env vars = image_name (abs_img_path (cwd env) p)"
      by (simp_all add: run_trace_def run_image_name_def)
    with fin [of "phaseA_result env p"] memo_phaseA_result [of env p] show ?thesis by simp
  next
    case (no_success m nid p b)
    then have "run_trace env vars = trace (emit (Error UpgradeFailed) (phaseA_result env p))"
      and "run_image_name env vars = image_name (abs_img_path (cwd env) p)"
      by (simp_all add: run_trace_def run_image_name_def)
    with fin [of "phaseA_result env p"] memo_phaseA_result [of env p] show ?thesis by simp
  next
    case (phaseB_failed m nid p b)
    then have "run_trace env vars =
        trace (emit (Error UpgradeFailed) (phaseB_result env (phaseA_result env p)))"
      and "run_image_name env vars = image_name (abs_img_path (cwd env) p)"
      by (simp_all add: run_trace_def run_image_name_def)
    with fin [of "phaseB_result env (phaseA_result env p)"] memo_phaseB_result [of env p]
    show ?thesis by simp
  next
    case (phaseB_done m nid p b)
    then have tr: "run_trace env vars = trace (phaseB_result env (phaseA_result env p))"
      and im: "run_image_name env vars = image_name (abs_img_path (cwd env) p)"
      by (simp_all add: run_trace_def run_image_name_def)
    from tr a have "k < ncalls st (phaseB_result env (phaseA_result env p))"
      by (simp add: ncalls_def)
    with memo_phaseB_result [of env p] a im
    have "Suc k = ncalls st (phaseB_result env (phaseA_result env p))"
      unfolding memo_inv_def by auto
    with tr show ?thesis by (simp add: ncalls_def)
  qed
qed

lemma run_empty_params:
  "run_trace env_empty_params (Some vars0) =
     [ReadFile ''/home/u/fw.bin'', Call NewSession, Call NewNode, Call NewService,
      Call VerifyService, Call UploadImage, InfoUploadSuccess, Call GetServiceParams,
      Call GetNodeParams, Call StartOta, Warn NetworkError, Sleep 5, RetriesLeft 4,
      Call GetNodeParams, Call StartOta, Call CheckOtaStatus]"
  by (simp add: run_defs env_empty_params_def env_ok_def vars0_def)

lemma run_flaky_upload:
  "run_trace env_flaky_upload (Some vars0) =
     [ReadFile ''/home/u/fw.bin'', Call NewSession, Call NewNode, Call NewService,
      Call VerifyService, Call UploadImage, Warn NetworkError, Sleep 5, RetriesLeft 4,
      Call UploadImage, Warn NetworkError, Sleep 5, RetriesLeft 3,
      Call UploadImage, InfoUploadSuccess, Call GetServiceParams,
      Call GetNodeParams, Call StartOta, Call CheckOtaStatus]"
  by (simp add: run_defs env_flaky_upload_def env_ok_def vars0_def)

text \<open>
  The claim as stated fails when a stored result is falsy. The node parameters come back
  as the empty dictionary, the start command fails once with a network error and then
  succeeds: the run succeeds, and the node parameters, although fetched and stored in the
  first attempt, are fetched again in the second.
\<close>

theorem memoized_counterexample:
  "get_node_params env_empty_params 0 = Inr (PDict []) \<and>
   count_list (run_trace env_empty_params (Some vars0)) (Call GetNodeParams) = 2 \<and>
   \<not> failed_run (run_trace env_empty_params (Some vars0))"
  by (simp add: run_empty_params failed_run_def) (simp add: env_empty_params_def env_ok_def)

text \<open>
  Scenario B of the specification: the upload fails twice with a network error and
  succeeds at the third attempt; service discovery, which returned a truthy
  configuration in the first attempt, is called once in the whole run.
\<close>

theorem memoized_truthy_witness:
  "count_list (run_trace env_flaky_upload (Some vars0)) (Call VerifyService) = Suc 0 \<and>
   count_list (run_trace env_flaky_upload (Some vars0)) (Call UploadImage) = 3"
proof -
  have a: "cacheable env_flaky_upload (run_image_name env_flaky_upload (Some vars0)) VerifyService 0 \<and>
      0 < count_list (run_trace env_flaky_upload (Some vars0)) (Call VerifyService)"
    by (simp add: run_flaky_upload) (simp add: env_flaky_upload_def env_ok_def)
  with memoized_truthy [of env_flaky_upload "Some vars0"]
  have "count_list (run_trace env_flaky_upload (Some vars0)) (Call VerifyService) = Suc 0"
    by blast
  moreover have "count_list (run_trace env_flaky_upload (Some vars0)) (Call UploadImage) = 3"
    by (simp add: run_flaky_upload)
  ultimately show ?thesis by blast
qed

section \<open>Loops that spend their whole budget\<close>

lemma transient_iff: "transient e \<longleftrightarrow> e = NetworkError \<or> e = RequestTimeoutError"
  by (cases e) auto

text \<open>
  A loop whose every iteration ends without \<open>break\<close> and without a fatal error: each
  iteration contributes its own events, then one sleep.
\<close>

lemma retry_loop_continues:
  assumes step: "\<And>s. P s \<Longrightarrow> \<exists>fl s' it. body s = (fl, s') \<and>
                   (fl = Next \<or> (\<exists>e. fl = Raise e \<and> transient e)) \<and>
                   trace s' = trace s @ it \<and> count_list it (Sleep 5) = 0 \<and>
                   (\<forall>x. count_list it (Call x) = c x) \<and> P s'"
    and stable: "\<And>s e. P s \<Longrightarrow> \<not> (\<exists>x. e = Call x) \<Longrightarrow> P (emit e s)"
  shows "P s \<Longrightarrow> \<exists>ext. trace (retry_loop body n s) = trace s @ ext \<and>
            (\<forall>x. count_list ext (Call x) = n * c x) \<and> count_list ext (Sleep 5) = n \<and>
            (n \<noteq> 0 \<longrightarrow> (\<exists>q. ext = q @ [Sleep 5])) \<and> P (retry_loop body n s)"
proof (induction n arbitrary: s)
  case 0
  then show ?case by simp
next
  case (Suc n)
  from step [OF Suc.prems] obtain fl s' it where b: "body s = (fl, s')"
    and fl: "fl = Next \<or> (\<exists>e. fl = Raise e \<and> transient e)"
    and it: "trace s' = trace s @ it" "count_list it (Sleep 5) = 0"
      "\<forall>x. count_list it (Call x) = c x"
    and p: "P s'"
    by blast
  define w where "w = (case fl of Raise e \<Rightarrow> [Warn e] | _ \<Rightarrow> [])"
  define t where "t = (case fl of Raise e \<Rightarrow> backoff n (emit (Warn e) s') | _ \<Rightarrow> backoff n s')"
  define r where "r = (if n \<noteq> 0 then [RetriesLeft n] else [])"
  have loop: "retry_loop body (Suc n) s = retry_loop body n t"
    using b fl by (auto simp: t_def transient_iff)
  have tr: "trace t = trace s @ it @ w @ [Sleep 5] @ r"
    using fl it by (auto simp: t_def w_def r_def obs_defs)
  have pt: "P t"
    using fl p by (auto simp: t_def backoff_def intro!: stable)
  from Suc.IH [OF pt] obtain ext where ext: "trace (retry_loop body n t) = trace t @ ext"
    "\<forall>x. count_list ext (Call x) = n * c x" "count_list ext (Sleep 5) = n"
    "n \<noteq> 0 \<longrightarrow> (\<exists>q. ext = q @ [Sleep 5])" "P (retry_loop body n t)"
    by blast
  have n0: "ext = []" if "n = 0"
    using ext(1) that by simp
  let ?ext = "it @ w @ [Sleep 5] @ r @ ext"
  have "trace (retry_loop body (Suc n) s) = trace s @ ?ext"
    using loop ext(1) tr by simp
  moreover have "\<forall>x. count_list ?ext (Call x) = Suc n * c x"
    using it ext(2) fl by (auto simp: w_def r_def)
  moreover have "count_list ?ext (Sleep 5) = Suc n"
    using it ext(3) fl by (auto simp: w_def r_def)
  moreover have "\<exists>q. ?ext = q @ [Sleep 5]"
  proof (cases "n = 0")
    case True
    with n0 have "?ext = (it @ w) @ [Sleep 5]" by (simp add: r_def)
    then show ?thesis by blast
  next
    case False
    with ext(4) obtain q where "ext = q @ [Sleep 5]" by blast
    then have "?ext = (it @ w @ [Sleep 5] @ r @ q) @ [Sleep 5]" by simp
    then show ?thesis by blast
  qed
  moreover have "P (retry_loop body (Suc n) s)"
    using loop ext(5) by simp
  ultimately show ?case by blast
qed

lemma phaseA_try_session_raises:
  "\<not> curr_session s \<Longrightarrow> new_session env (ncalls NewSession s) = Inl e \<Longrightarrow>
   phaseA_try env img s = (Raise e, emit (Call NewSession) s)"
  by (simp add: phaseA_try_def ensure_session_def)

lemma phaseB_try_params_raise:
  "py_in ''image_url'' (response s) = Inr True \<Longrightarrow>
   py_getitem (response s) ''image_url'' = Inr u \<Longrightarrow>
   \<not> truthy (service_read_params s) \<Longrightarrow> \<not> truthy (service_write_params s) \<Longrightarrow>
   get_service_params env (ncalls GetServiceParams s) = Inl e \<Longrightarrow>
   phaseB_try env s = (Raise e, emit (Call GetServiceParams) (s\<lparr>param_url_to_set := u\<rparr>))"
  by (simp add: phaseB_try_def ensure_service_params_def ncalls_def)

lemma raises_transientD: "raises_transient r \<Longrightarrow> \<exists>e. r = Inl e \<and> transient e"
  by (cases r) (auto simp: raises_transient_def)

lemma phaseA_all_transient:
  assumes t: "\<forall>k. raises_transient (new_session env k)"
    and s: "\<not> curr_session s" "\<not> node_object s"
  shows "\<exists>ext. trace (retry_loop (phaseA_try env img) n s) = trace s @ ext \<and>
            count_list ext (Call NewSession) = n \<and> count_list ext (Sleep 5) = n \<and>
            (n \<noteq> 0 \<longrightarrow> (\<exists>q. ext = q @ [Sleep 5])) \<and>
            \<not> node_object (retry_loop (phaseA_try env img) n s)"
proof -
  let ?P = "\<lambda>s. \<not> curr_session s \<and> \<not> node_object s"
  let ?c = "\<lambda>x. if x = NewSession then 1 else (0::nat)"
  have "\<exists>ext. trace (retry_loop (phaseA_try env img) n s) = trace s @ ext \<and>
            (\<forall>x. count_list ext (Call x) = n * ?c x) \<and> count_list ext (Sleep 5) = n \<and>
            (n \<noteq> 0 \<longrightarrow> (\<exists>q. ext = q @ [Sleep 5])) \<and> ?P (retry_loop (phaseA_try env img) n s)"
  proof (rule retry_loop_continues [where P = ?P and c = ?c])
    fix t :: locals
    assume p: "?P t"
    from t have "raises_transient (new_session env (ncalls NewSession t))" by simp
    then obtain e where e: "new_session env (ncalls NewSession t) = Inl e" "transient e"
      by (auto dest: raises_transientD)
    with p have "phaseA_try env img t = (Raise e, emit (Call NewSession) t)"
      by (simp add: phaseA_try_session_raises)
    with e p show "\<exists>fl s' it. phaseA_try env img t = (fl, s') \<and>
                   (fl = Next \<or> (\<exists>e. fl = Raise e \<and> transient e)) \<and>
                   trace s' = trace t @ it \<and> count_list it (Sleep 5) = 0 \<and>
                   (\<forall>x. count_list it (Call x) = ?c x) \<and> ?P s'"
      by (intro exI [of _ "Raise e"] exI [of _ "emit (Call NewSession) t"]
          exI [of _ "[Call NewSession]"]) (simp add: emit_def)
  qed (use s in \<open>simp_all add: emit_def\<close>)
  then obtain ext where "trace (retry_loop (phaseA_try env img) n s) = trace s @ ext"
    "\<forall>x. count_list ext (Call x) = n * ?c x" "count_list ext (Sleep 5) = n"
    "n \<noteq> 0 \<longrightarrow> (\<exists>q. ext = q @ [Sleep 5])" "?P (retry_loop (phaseA_try env img) n s)"
    by blast
  then show ?thesis by (intro exI [of _ ext]) simp
qed

lemma phaseB_all_transient:
  assumes t: "\<forall>k. raises_transient (get_service_params env k)"
    and s: "py_in ''image_url'' (response s) = Inr True"
      "py_getitem (response s) ''image_url'' = Inr u"
      "\<not> truthy (service_read_params s)" "\<not> truthy (service_write_params s)"
      "ota_status s = PNone"
  shows "\<exists>ext. trace (retry_loop (phaseB_try env) n s) = trace s @ ext \<and>
            count_list ext (Call GetServiceParams) = n \<and> count_list ext (Sleep 5) = n \<and>
            (n \<noteq> 0 \<longrightarrow> (\<exists>q. ext = q @ [Sleep 5])) \<and>
            ota_status (retry_loop (phaseB_try env) n s) = PNone"
proof -
  let ?P = "\<lambda>s. py_in ''image_url'' (response s) = Inr True \<and>
      py_getitem (response s) ''image_url'' = Inr u \<and>
      \<not> truthy (service_read_params s) \<and> \<not> truthy (service_write_params s) \<and>
      ota_status s = PNone"
  let ?c = "\<lambda>x. if x = GetServiceParams then 1 else (0::nat)"
  have "\<exists>ext. trace (retry_loop (phaseB_try env) n s) = trace s @ ext \<and>
            (\<forall>x. count_list ext (Call x) = n * ?c x) \<and> count_list ext (Sleep 5) = n \<and>
            (n \<noteq> 0 \<longrightarrow> (\<exists>q. ext = q @ [Sleep 5])) \<and> ?P (retry_loop (phaseB_try env) n s)"
  proof (rule retry_loop_continues [where P = ?P and c = ?c])
    fix t :: locals
    assume p: "?P t"
    from t have "raises_transient (get_service_params env (ncalls GetServiceParams t))" by simp
    then obtain e where e: "get_service_params env (ncalls GetServiceParams t) = Inl e" "transient e"
      by (auto dest: raises_transientD)
    with p have "phaseB_try env t =
        (Raise e, emit (Call GetServiceParams) (t\<lparr>param_url_to_set := u\<rparr>))"
      by (simp add: phaseB_try_params_raise)
    with e p show "\<exists>fl s' it. phaseB_try env t = (fl, s') \<and>
                   (fl = Next \<or> (\<exists>e. fl = Raise e \<and> transient e)) \<and>
                   trace s' = trace t @ it \<and> count_list it (Sleep 5) = 0 \<and>
                   (\<forall>x. count_list it (Call x) = ?c x) \<and> ?P s'"
      by (intro exI [of _ "Raise e"]
          exI [of _ "emit (Call GetServiceParams) (t\<lparr>param_url_to_set := u\<rparr>)"]
          exI [of _ "[Call GetServiceParams]"]) (simp add: emit_def)
  qed (use s in \<open>simp_all add: emit_def\<close>)
  then obtain ext where "trace (retry_loop (phaseB_try env) n s) = trace s @ ext"
    "\<forall>x. count_list ext (Call x) = n * ?c x" "count_list ext (Sleep 5) = n"
    "n \<noteq> 0 \<longrightarrow> (\<exists>q. ext = q @ [Sleep 5])" "?P (retry_loop (phaseB_try env) n s)"
    by blast
  then show ?thesis by (intro exI [of _ ext]) simp
qed

lemma no_info_in_phaseA: "InfoUploadSuccess \<notin> set (trace (phaseA_result env p))"
proof -
  have "count_list (trace (phaseA_result env p)) InfoUploadSuccess = 0"
    by (subst phaseA_result_frame) auto
  then show ?thesis by (simp add: count_list_0_iff)
qed

lemma dict_has_url:
  "map_of kvs ''image_url'' = Some u \<Longrightarrow>
   py_in ''image_url'' (PDict kvs) = Inr True \<and> py_getitem (PDict kvs) ''image_url'' = Inr u"
  by (auto dest!: map_of_SomeD intro: rev_image_eqI)

text \<open>
  Claim C2, as amended. When every attempt to create the session fails with a network
  error or a timeout, Phase A makes exactly \<open>MAX_HTTP_CONNECTION_RETRIES\<close> attempts and
  sleeps exactly as many times, the last sleep coming after the last attempt, and the
  run then reports the failure. When Phase B is entered with a firmware reference and
  every attempt to resolve the service properties fails in that way, Phase B makes
  exactly \<open>MAX_HTTP_CONNECTION_RETRIES\<close> attempts and sleeps exactly as many times, the
  last sleep again following the last attempt, and the run then reports the failure.
\<close>

theorem budget_exhaustion:
  "(vars = Some m \<and> m ''nodeid'' = Some nid \<and> m ''otaimagepath'' = Some p \<and>
    read_file env (abs_img_path (cwd env) p) = Inr b \<and>
    (\<forall>k. raises_transient (new_session env k)) \<longrightarrow>
      count_list (run_trace env vars) (Call NewSession) = MAX_HTTP_CONNECTION_RETRIES \<and>
      count_list (run_trace env vars) (Sleep 5) = MAX_HTTP_CONNECTION_RETRIES \<and>
      (\<exists>pre. run_trace env vars = pre @ [Sleep 5, Error SessionInitFailed])) \<and>
   (InfoUploadSuccess \<in> set (run_trace env vars) \<and>
    response (snd (ota_upgrade env vars)) = PDict kvs \<and> map_of kvs ''image_url'' = Some u \<and>
    (\<forall>k. raises_transient (get_service_params env k)) \<longrightarrow>
      (\<exists>pre post. run_trace env vars = pre @ InfoUploadSuccess # post \<and>
         count_list post (Call GetServiceParams) = MAX_HTTP_CONNECTION_RETRIES \<and>
         count_list post (Sleep 5) = MAX_HTTP_CONNECTION_RETRIES \<and>
         (\<exists>q. post = q @ [Sleep 5, Error UpgradeFailed])))"
proof -
  have partA: "count_list (run_trace env vars) (Call NewSession) = MAX_HTTP_CONNECTION_RETRIES \<and>
      count_list (run_trace env vars) (Sleep 5) = MAX_HTTP_CONNECTION_RETRIES \<and>
      (\<exists>pre. run_trace env vars = pre @ [Sleep 5, Error SessionInitFailed])"
    if a: "vars = Some m \<and> m ''nodeid'' = Some nid \<and> m ''otaimagepath'' = Some p \<and>
    read_file env (abs_img_path (cwd env) p) = Inr b \<and>
    (\<forall>k. raises_transient (new_session env k))"
  proof -
  let ?s0 = "emit (ReadFile (abs_img_path (cwd env) p)) init_locals"
  from a have "\<exists>ext. trace (phaseA_result env p) = trace ?s0 @ ext \<and>
            count_list ext (Call NewSession) = MAX_HTTP_CONNECTION_RETRIES \<and>
            count_list ext (Sleep 5) = MAX_HTTP_CONNECTION_RETRIES \<and>
            (MAX_HTTP_CONNECTION_RETRIES \<noteq> 0 \<longrightarrow> (\<exists>q. ext = q @ [Sleep 5])) \<and>
            \<not> node_object (phaseA_result env p)"
    unfolding phaseA_result_def
    by (intro phaseA_all_transient) (simp_all add: emit_def init_locals_def)
  then obtain ext q where ext: "trace (phaseA_result env p) = trace ?s0 @ ext"
    "count_list ext (Call NewSession) = MAX_HTTP_CONNECTION_RETRIES"
    "count_list ext (Sleep 5) = MAX_HTTP_CONNECTION_RETRIES"
    "ext = q @ [Sleep 5]" "\<not> node_object (phaseA_result env p)"
    by (auto simp: MAX_HTTP_CONNECTION_RETRIES_def)
  have tr: "run_trace env vars = trace (phaseA_result env p) @ [Error SessionInitFailed]"
  proof (cases rule: run_cases [of vars env])
    case (no_session m' nid' p' b')
    with a show ?thesis by (auto simp: run_trace_def emit_def)
  qed (use a ext(5) in auto)
  have "run_trace env vars =
      (ReadFile (abs_img_path (cwd env) p) # q) @ [Sleep 5, Error SessionInitFailed]"
    using tr ext(1,4) by (simp add: emit_def init_locals_def)
  then have "\<exists>pre. run_trace env vars = pre @ [Sleep 5, Error SessionInitFailed]" by blast
  moreover have "count_list (run_trace env vars) (Call NewSession) = MAX_HTTP_CONNECTION_RETRIES"
    "count_list (run_trace env vars) (Sleep 5) = MAX_HTTP_CONNECTION_RETRIES"
    using tr ext(1,2,3) by (simp_all add: emit_def init_locals_def)
  ultimately show ?thesis
    by blast
  qed
  have partB: "\<exists>pre post. run_trace env vars = pre @ InfoUploadSuccess # post \<and>
         count_list post (Call GetServiceParams) = MAX_HTTP_CONNECTION_RETRIES \<and>
         count_list post (Sleep 5) = MAX_HTTP_CONNECTION_RETRIES \<and>
         (\<exists>q. post = q @ [Sleep 5, Error UpgradeFailed])"
    if a: "InfoUploadSuccess \<in> set (run_trace env vars) \<and>
    response (snd (ota_upgrade env vars)) = PDict kvs \<and> map_of kvs ''image_url'' = Some u \<and>
    (\<forall>k. raises_transient (get_service_params env k))"
  proof -
  have keep: "response (phaseB_result env s1) = response s1" for s1
    using phaseB_keeps_upload [where s = "enter_phaseB (emit InfoUploadSuccess s1)" and env = env]
    by (simp add: phaseB_result_def enter_phaseB_def emit_def)
  have loop: "\<exists>ext q. trace (phaseB_result env s1) = trace s1 @ InfoUploadSuccess # ext \<and>
            count_list ext (Call GetServiceParams) = MAX_HTTP_CONNECTION_RETRIES \<and>
            count_list ext (Sleep 5) = MAX_HTTP_CONNECTION_RETRIES \<and>
            ext = q @ [Sleep 5] \<and> ota_status (phaseB_result env s1) = PNone"
    if r: "response s1 = PDict kvs" for s1
  proof -
    let ?sB = "enter_phaseB (emit InfoUploadSuccess s1)"
    from r a dict_has_url [of kvs u]
    have "\<exists>ext. trace (retry_loop (phaseB_try env) MAX_HTTP_CONNECTION_RETRIES ?sB) = trace ?sB @ ext \<and>
            count_list ext (Call GetServiceParams) = MAX_HTTP_CONNECTION_RETRIES \<and>
            count_list ext (Sleep 5) = MAX_HTTP_CONNECTION_RETRIES \<and>
            (MAX_HTTP_CONNECTION_RETRIES \<noteq> 0 \<longrightarrow> (\<exists>q. ext = q @ [Sleep 5])) \<and>
            ota_status (retry_loop (phaseB_try env) MAX_HTTP_CONNECTION_RETRIES ?sB) = PNone"
      by (intro phaseB_all_transient [where u = u]) (simp_all add: emit_def enter_phaseB_def)
    then show ?thesis
      by (auto simp: phaseB_result_def MAX_HTTP_CONNECTION_RETRIES_def emit_def enter_phaseB_def)
  qed
  show ?thesis
  proof (cases rule: run_cases [of vars env])
    case no_vars
    with a show ?thesis by (simp add: run_trace_def emit_def init_locals_def)
  next
    case (no_key m)
    with a show ?thesis by (simp add: run_trace_def emit_def init_locals_def)
  next
    case (unreadable m nid p e)
    with a show ?thesis by (simp add: run_trace_def emit_def init_locals_def)
  next
    case (no_session m nid p b)
    with a no_info_in_phaseA [of env p] show ?thesis by (simp add: run_trace_def emit_def)
  next
    case (no_status m nid p b)
    with a no_info_in_phaseA [of env p] show ?thesis by (simp add: run_trace_def emit_def)
  next
    case (bad_status m nid p b)
    with a no_info_in_phaseA [of env p] show ?thesis by (simp add: run_trace_def emit_def)
  next
    case (no_success m nid p b)
    with a no_info_in_phaseA [of env p] show ?thesis by (simp add: run_trace_def emit_def)
  next
    case (phaseB_failed m nid p b)
    let ?s1 = "phaseA_result env p"
    from phaseB_failed a keep [of ?s1] have "response ?s1 = PDict kvs" by (simp add: emit_def)
    from loop [OF this] obtain ext q where
      ext: "trace (phaseB_result env ?s1) = trace ?s1 @ InfoUploadSuccess # ext"
      "count_list ext (Call GetServiceParams) = MAX_HTTP_CONNECTION_RETRIES"
      "count_list ext (Sleep 5) = MAX_HTTP_CONNECTION_RETRIES" "ext = q @ [Sleep 5]"
      by blast
    let ?post = "ext @ [Error UpgradeFailed]"
    from phaseB_failed ext(1) have "run_trace env vars = trace ?s1 @ InfoUploadSuccess # ?post"
      by (simp add: run_trace_def emit_def)
    moreover from ext(2,3) have "count_list ?post (Call GetServiceParams) = MAX_HTTP_CONNECTION_RETRIES"
      "count_list ?post (Sleep 5) = MAX_HTTP_CONNECTION_RETRIES" by simp_all
    moreover from ext(4) have "\<exists>q. ?post = q @ [Sleep 5, Error UpgradeFailed]" by simp
    ultimately show ?thesis by blast
  next
    case (phaseB_done m nid p b)
    let ?s1 = "phaseA_result env p"
    from phaseB_done a keep [of ?s1] have "response ?s1 = PDict kvs" by simp
    from loop [OF this] have "ota_status (phaseB_result env ?s1) = PNone" by blast
    with phaseB_done show ?thesis by simp
  qed
  qed
  from partA partB show ?thesis by blast
qed

lemma run_offline:
  "run_trace env_offline (Some vars0) =
     [ReadFile ''/home/u/fw.bin'',
      Call NewSession, Warn NetworkError, Sleep 5, RetriesLeft 4,
      Call NewSession, Warn NetworkError, Sleep 5, RetriesLeft 3,
      Call NewSession, Warn NetworkError, Sleep 5, RetriesLeft 2,
      Call NewSession, Warn NetworkError, Sleep 5, RetriesLeft 1,
      Call NewSession, Warn NetworkError, Sleep 5, Error SessionInitFailed]"
  by (simp add: run_defs env_offline_def env_ok_def vars0_def)

lemma run_params_down:
  "run_trace env_params_down (Some vars0) =
     [ReadFile ''/home/u/fw.bin'', Call NewSession, Call NewNode, Call NewService,
      Call VerifyService, Call UploadImage, InfoUploadSuccess,
      Call GetServiceParams, Warn RequestTimeoutError, Sleep 5, RetriesLeft 4,
      Call GetServiceParams, Warn RequestTimeoutError, Sleep 5, RetriesLeft 3,
      Call GetServiceParams, Warn RequestTimeoutError, Sleep 5, RetriesLeft 2,
      Call GetServiceParams, Warn RequestTimeoutError, Sleep 5, RetriesLeft 1,
      Call GetServiceParams, Warn RequestTimeoutError, Sleep 5, Error UpgradeFailed]"
  by (simp add: run_defs env_params_down_def env_ok_def vars0_def)

text \<open>
  The claim as stated fails: with a session that can never be created, Phase A makes
  five attempts and sleeps five times, not four.
\<close>

theorem budget_exhaustion_counterexample:
  "(\<forall>k. raises_transient (new_session env_offline k)) \<and>
   count_list (run_trace env_offline (Some vars0)) (Call NewSession) = MAX_HTTP_CONNECTION_RETRIES \<and>
   count_list (run_trace env_offline (Some vars0)) (Sleep 5) \<noteq> MAX_HTTP_CONNECTION_RETRIES - 1"
  by (simp add: run_offline MAX_HTTP_CONNECTION_RETRIES_def)
     (simp add: env_offline_def raises_transient_def)

text \<open>A timeout at every attempt to resolve the service properties, and no network at all.\<close>

theorem budget_exhaustion_witness:
  "(count_list (run_trace env_offline (Some vars0)) (Call NewSession) = MAX_HTTP_CONNECTION_RETRIES \<and>
    count_list (run_trace env_offline (Some vars0)) (Sleep 5) = MAX_HTTP_CONNECTION_RETRIES \<and>
    (\<exists>pre. run_trace env_offline (Some vars0) = pre @ [Sleep 5, Error SessionInitFailed])) \<and>
   (\<exists>pre post. run_trace env_params_down (Some vars0) = pre @ InfoUploadSuccess # post \<and>
      count_list post (Call GetServiceParams) = MAX_HTTP_CONNECTION_RETRIES \<and>
      count_list post (Sleep 5) = MAX_HTTP_CONNECTION_RETRIES \<and>
      (\<exists>q. post = q @ [Sleep 5, Error UpgradeFailed]))"
proof
  have a: "Some vars0 = Some vars0 \<and> vars0 ''nodeid'' = Some ''N1'' \<and>
    vars0 ''otaimagepath'' = Some ''fw.bin'' \<and>
    read_file env_offline (abs_img_path (cwd env_offline) ''fw.bin'') = Inr ''0123456789'' \<and>
    (\<forall>k. raises_transient (new_session env_offline k))"
    by (simp add: vars0_def env_offline_def env_ok_def raises_transient_def)
  from budget_exhaustion [where env = env_offline and vars = "Some vars0" and m = vars0
      and nid = "''N1''" and p = "''fw.bin''" and b = "''0123456789''", THEN conjunct1, THEN mp, OF a]
  show "count_list (run_trace env_offline (Some vars0)) (Call NewSession) = MAX_HTTP_CONNECTION_RETRIES \<and>
    count_list (run_trace env_offline (Some vars0)) (Sleep 5) = MAX_HTTP_CONNECTION_RETRIES \<and>
    (\<exists>pre. run_trace env_offline (Some vars0) = pre @ [Sleep 5, Error SessionInitFailed])" .
next
  have b: "InfoUploadSuccess \<in> set (run_trace env_params_down (Some vars0)) \<and>
    response (snd (ota_upgrade env_params_down (Some vars0))) =
      PDict [(''image_url'', PStr ''https://x/y'')] \<and>
    map_of [(''image_url'', PStr ''https://x/y'')] ''image_url'' = Some (PStr ''https://x/y'') \<and>
    (\<forall>k. raises_transient (get_service_params env_params_down k))"
    by (simp add: run_params_down)
       (simp add: run_defs env_params_down_def env_ok_def vars0_def raises_transient_def)
  from budget_exhaustion [where env = env_params_down and vars = "Some vars0"
      and kvs = "[(''image_url'', PStr ''https://x/y'')]" and u = "PStr ''https://x/y''",
      THEN conjunct2, THEN mp, OF b]
  show "\<exists>pre post. run_trace env_params_down (Some vars0) = pre @ InfoUploadSuccess # post \<and>
      count_list post (Call GetServiceParams) = MAX_HTTP_CONNECTION_RETRIES \<and>
      count_list post (Sleep 5) = MAX_HTTP_CONNECTION_RETRIES \<and>
      (\<exists>q. post = q @ [Sleep 5, Error UpgradeFailed])" .
qed

section \<open>Guards test truthiness\<close>

lemma returns_falsyD: "returns_falsy r \<Longrightarrow> \<exists>v. r = Inr v \<and> \<not> truthy v"
  by (cases r) (auto simp: returns_falsy_def)

lemma returns_falsy_pairD:
  "returns_falsy_pair r \<Longrightarrow> \<exists>a b. r = Inr (a, b) \<and> \<not> truthy a \<and> \<not> truthy b"
  by (cases r) (auto simp: returns_falsy_pair_def)

lemma phaseA_first_attempt:
  assumes "new_session env 0 = Inr ()" "new_node env 0 = Inr ()" "new_service env 0 = Inr ()"
    "verify_service_exists env 0 = Inr (cfg, nm)" "truthy cfg"
    "upload_ota_image env img 0 = Inr (st, r)" "\<not> truthy st"
  shows "phaseA_try env img (emit (ReadFile path) init_locals) =
    (Next, init_locals\<lparr>curr_session := True, node_object := True, service_obj := True,
        service_config := cfg, service_name := nm, status := st, response := r,
        trace := [ReadFile path, Call NewSession, Call NewNode, Call NewService,
                  Call VerifyService, Call UploadImage]\<rparr>)"
  using assms
  by (simp add: phaseA_try_def stepA_defs obs_defs init_locals_def Let_def)

lemma phaseA_try_upload_again:
  assumes "curr_session s" "node_object s" "service_obj s" "truthy (service_config s)"
    "\<not> truthy (status s)" "\<not> truthy (response s)"
    "upload_ota_image env img (ncalls UploadImage s) = Inr (st, r)" "\<not> truthy st"
  shows "phaseA_try env img s = (Next, (emit (Call UploadImage) s)\<lparr>status := st, response := r\<rparr>)"
  using assms
  by (simp add: phaseA_try_def stepA_defs Let_def)

lemma phaseA_try_all_cached:
  assumes "curr_session s" "node_object s" "service_obj s" "truthy (service_config s)"
    "truthy (status s) \<or> truthy (response s)"
  shows "phaseA_try env img s = (Next, s)"
  using assms
  by (auto simp: phaseA_try_def stepA_defs Let_def)

lemma phaseB_try_falsy_round:
  assumes "py_in ''image_url'' (response s) = Inr True"
    "py_getitem (response s) ''image_url'' = Inr u"
    "\<not> truthy (service_read_params s)" "\<not> truthy (service_write_params s)"
    "\<not> truthy (node_params s)" "\<not> truthy (ota_start_status s)"
    "get_service_params env (ncalls GetServiceParams s) = Inr (r, w)"
    "get_node_params env (ncalls GetNodeParams s) = Inr v"
    "start_ota env (ncalls StartOta s) = Inl e"
  shows "phaseB_try env s =
    (Raise e, s\<lparr>param_url_to_set := u, service_read_params := r, service_write_params := w,
        node_params := v,
        trace := trace s @ [Call GetServiceParams, Call GetNodeParams, Call StartOta]\<rparr>)"
  using assms
  by (simp add: phaseB_try_def stepB_defs obs_defs Let_def)

lemma phaseA_upload_every_round:
  assumes first: "new_session env 0 = Inr ()" "new_node env 0 = Inr ()" "new_service env 0 = Inr ()"
    "verify_service_exists env 0 = Inr (cfg, nm)" "truthy cfg"
    and falsy: "\<forall>k. returns_falsy_pair (upload_ota_image env img k)"
  shows "(\<lambda>s1. count_list (trace s1) (Call UploadImage) = MAX_HTTP_CONNECTION_RETRIES \<and>
            node_object s1 \<and> \<not> truthy (status s1))
         (retry_loop (phaseA_try env img) MAX_HTTP_CONNECTION_RETRIES
            (emit (ReadFile path) init_locals))"
proof -
  let ?P = "\<lambda>s. curr_session s \<and> node_object s \<and> service_obj s \<and> truthy (service_config s) \<and>
      \<not> truthy (status s) \<and> \<not> truthy (response s)"
  let ?c = "\<lambda>x. if x = UploadImage then 1 else (0::nat)"
  from falsy obtain st r where u0: "upload_ota_image env img 0 = Inr (st, r)"
    "\<not> truthy st" "\<not> truthy r"
    by (blast dest: returns_falsy_pairD)
  let ?t1 = "init_locals\<lparr>curr_session := True, node_object := True, service_obj := True,
        service_config := cfg, service_name := nm, status := st, response := r,
        trace := [ReadFile path, Call NewSession, Call NewNode, Call NewService,
                  Call VerifyService, Call UploadImage]\<rparr>"
  have unfold: "retry_loop (phaseA_try env img) MAX_HTTP_CONNECTION_RETRIES
            (emit (ReadFile path) init_locals) =
          retry_loop (phaseA_try env img) 4 (backoff 4 ?t1)"
    using phaseA_first_attempt [OF first u0(1,2), of path]
    by (simp add: MAX_HTTP_CONNECTION_RETRIES_def eval_nat_numeral)
  have "\<exists>ext. trace (retry_loop (phaseA_try env img) 4 (backoff 4 ?t1)) = trace (backoff 4 ?t1) @ ext \<and>
            (\<forall>x. count_list ext (Call x) = 4 * ?c x) \<and> count_list ext (Sleep 5) = 4 \<and>
            (4 \<noteq> (0::nat) \<longrightarrow> (\<exists>q. ext = q @ [Sleep 5])) \<and>
            ?P (retry_loop (phaseA_try env img) 4 (backoff 4 ?t1))"
  proof (rule retry_loop_continues [where P = ?P and c = ?c])
    fix t :: locals
    assume p: "?P t"
    from falsy obtain st' r' where u: "upload_ota_image env img (ncalls UploadImage t) = Inr (st', r')"
      "\<not> truthy st'" "\<not> truthy r'"
      by (blast dest: returns_falsy_pairD)
    with p have "phaseA_try env img t =
        (Next, (emit (Call UploadImage) t)\<lparr>status := st', response := r'\<rparr>)"
      by (intro phaseA_try_upload_again) simp_all
    with u p show "\<exists>fl s' it. phaseA_try env img t = (fl, s') \<and>
                   (fl = Next \<or> (\<exists>e. fl = Raise e \<and> transient e)) \<and>
                   trace s' = trace t @ it \<and> count_list it (Sleep 5) = 0 \<and>
                   (\<forall>x. count_list it (Call x) = ?c x) \<and> ?P s'"
      by (intro exI [of _ Next] exI [of _ "(emit (Call UploadImage) t)\<lparr>status := st', response := r'\<rparr>"]
          exI [of _ "[Call UploadImage]"]) (simp add: emit_def)
  qed (use u0 first in \<open>simp_all add: obs_defs init_locals_def\<close>)
  then obtain ext where "trace (retry_loop (phaseA_try env img) 4 (backoff 4 ?t1)) = trace (backoff 4 ?t1) @ ext"
    "\<forall>x. count_list ext (Call x) = 4 * ?c x"
    "?P (retry_loop (phaseA_try env img) 4 (backoff 4 ?t1))"
    by blast
  then show ?thesis
    unfolding unfold by (simp add: obs_defs init_locals_def MAX_HTTP_CONNECTION_RETRIES_def)
qed

lemma phaseA_upload_once:
  assumes first: "new_session env 0 = Inr ()" "new_node env 0 = Inr ()" "new_service env 0 = Inr ()"
    "verify_service_exists env 0 = Inr (cfg, nm)" "truthy cfg"
    and half: "upload_ota_image env img 0 = Inr (st, r)" "\<not> truthy st" "truthy r"
  shows "(\<lambda>s1. count_list (trace s1) (Call UploadImage) = 1 \<and>
            count_list (trace s1) (Sleep 5) = MAX_HTTP_CONNECTION_RETRIES \<and>
            node_object s1 \<and> \<not> truthy (status s1))
         (retry_loop (phaseA_try env img) MAX_HTTP_CONNECTION_RETRIES
            (emit (ReadFile path) init_locals))"
proof -
  let ?P = "\<lambda>s. curr_session s \<and> node_object s \<and> service_obj s \<and> truthy (service_config s) \<and>
      \<not> truthy (status s) \<and> truthy (response s)"
  let ?c = "\<lambda>x::step. 0::nat"
  let ?t1 = "init_locals\<lparr>curr_session := True, node_object := True, service_obj := True,
        service_config := cfg, service_name := nm, status := st, response := r,
        trace := [ReadFile path, Call NewSession, Call NewNode, Call NewService,
                  Call VerifyService, Call UploadImage]\<rparr>"
  have unfold: "retry_loop (phaseA_try env img) MAX_HTTP_CONNECTION_RETRIES
            (emit (ReadFile path) init_locals) =
          retry_loop (phaseA_try env img) 4 (backoff 4 ?t1)"
    using phaseA_first_attempt [OF first half(1,2), of path]
    by (simp add: MAX_HTTP_CONNECTION_RETRIES_def eval_nat_numeral)
  have "\<exists>ext. trace (retry_loop (phaseA_try env img) 4 (backoff 4 ?t1)) = trace (backoff 4 ?t1) @ ext \<and>
            (\<forall>x. count_list ext (Call x) = 4 * ?c x) \<and> count_list ext (Sleep 5) = 4 \<and>
            (4 \<noteq> (0::nat) \<longrightarrow> (\<exists>q. ext = q @ [Sleep 5])) \<and>
            ?P (retry_loop (phaseA_try env img) 4 (backoff 4 ?t1))"
  proof (rule retry_loop_continues [where P = ?P and c = ?c])
    fix t :: locals
    assume p: "?P t"
    then have "phaseA_try env img t = (Next, t)"
      by (intro phaseA_try_all_cached) simp_all
    with p show "\<exists>fl s' it. phaseA_try env img t = (fl, s') \<and>
                   (fl = Next \<or> (\<exists>e. fl = Raise e \<and> transient e)) \<and>
                   trace s' = trace t @ it \<and> count_list it (Sleep 5) = 0 \<and>
                   (\<forall>x. count_list it (Call x) = ?c x) \<and> ?P s'"
      by (intro exI [of _ Next] exI [of _ t] exI [of _ "[]"]) simp
  qed (use half first in \<open>simp_all add: obs_defs init_locals_def\<close>)
  then obtain ext where "trace (retry_loop (phaseA_try env img) 4 (backoff 4 ?t1)) = trace (backoff 4 ?t1) @ ext"
    "\<forall>x. count_list ext (Call x) = 4 * ?c x" "count_list ext (Sleep 5) = 4"
    "?P (retry_loop (phaseA_try env img) 4 (backoff 4 ?t1))"
    by blast
  then show ?thesis
    unfolding unfold by (simp add: obs_defs init_locals_def MAX_HTTP_CONNECTION_RETRIES_def)
qed

lemma phaseB_falsy_rounds:
  assumes falsy: "\<forall>k. returns_falsy_pair (get_service_params env k)"
      "\<forall>k. returns_falsy (get_node_params env k)"
    and down: "\<forall>k. raises_transient (start_ota env k)"
    and s: "py_in ''image_url'' (response s) = Inr True"
      "py_getitem (response s) ''image_url'' = Inr u"
      "\<not> truthy (service_read_params s)" "\<not> truthy (service_write_params s)"
      "\<not> truthy (node_params s)" "\<not> truthy (ota_start_status s)" "ota_status s = PNone"
  shows "\<exists>ext. trace (retry_loop (phaseB_try env) n s) = trace s @ ext \<and>
            count_list ext (Call GetServiceParams) = n \<and>
            count_list ext (Call GetNodeParams) = n \<and>
            count_list ext (Call StartOta) = n \<and>
            ota_status (retry_loop (phaseB_try env) n s) = PNone"
proof -
  let ?P = "\<lambda>s. py_in ''image_url'' (response s) = Inr True \<and>
      py_getitem (response s) ''image_url'' = Inr u \<and>
      \<not> truthy (service_read_params s) \<and> \<not> truthy (service_write_params s) \<and>
      \<not> truthy (node_params s) \<and> \<not> truthy (ota_start_status s) \<and> ota_status s = PNone"
  let ?c = "\<lambda>x. if x = GetServiceParams \<or> x = GetNodeParams \<or> x = StartOta then 1 else (0::nat)"
  have "\<exists>ext. trace (retry_loop (phaseB_try env) n s) = trace s @ ext \<and>
            (\<forall>x. count_list ext (Call x) = n * ?c x) \<and> count_list ext (Sleep 5) = n \<and>
            (n \<noteq> 0 \<longrightarrow> (\<exists>q. ext = q @ [Sleep 5])) \<and> ?P (retry_loop (phaseB_try env) n s)"
  proof (rule retry_loop_continues [where P = ?P and c = ?c])
    fix t :: locals
    assume p: "?P t"
    from falsy(1) obtain r w where g: "get_service_params env (ncalls GetServiceParams t) = Inr (r, w)"
      "\<not> truthy r" "\<not> truthy w"
      by (blast dest: returns_falsy_pairD)
    from falsy(2) obtain v where v: "get_node_params env (ncalls GetNodeParams t) = Inr v" "\<not> truthy v"
      by (blast dest: returns_falsyD)
    from down obtain e where e: "start_ota env (ncalls StartOta t) = Inl e" "transient e"
      by (blast dest: raises_transientD)
    let ?t' = "t\<lparr>param_url_to_set := u, service_read_params := r, service_write_params := w,
        node_params := v,
        trace := trace t @ [Call GetServiceParams, Call GetNodeParams, Call StartOta]\<rparr>"
    from p g v e have "phaseB_try env t = (Raise e, ?t')"
      by (intro phaseB_try_falsy_round) simp_all
    with p g v e show "\<exists>fl s' it. phaseB_try env t = (fl, s') \<and>
                   (fl = Next \<or> (\<exists>e. fl = Raise e \<and> transient e)) \<and>
                   trace s' = trace t @ it \<and> count_list it (Sleep 5) = 0 \<and>
                   (\<forall>x. count_list it (Call x) = ?c x) \<and> ?P s'"
      by (intro exI [of _ "Raise e"] exI [of _ ?t']
          exI [of _ "[Call GetServiceParams, Call GetNodeParams, Call StartOta]"]) simp
  qed (use s in \<open>simp_all add: emit_def\<close>)
  then obtain ext where "trace (retry_loop (phaseB_try env) n s) = trace s @ ext"
    "\<forall>x. count_list ext (Call x) = n * ?c x" "?P (retry_loop (phaseB_try env) n s)"
    by blast
  then show ?thesis by (intro exI [of _ ext]) simp
qed

lemma run_after_falsy_status:
  assumes v: "vars = Some m" "m ''nodeid'' = Some nid" "m ''otaimagepath'' = Some p"
    "read_file env (abs_img_path (cwd env) p) = Inr b"
    and s1: "node_object (phaseA_result env p)" "\<not> truthy (status (phaseA_result env p))"
  shows "run_trace env vars = trace (phaseA_result env p) @ [Error UpgradeFailed]"
proof (cases rule: run_cases [of vars env])
  case (no_status m' nid' p' b')
  with v show ?thesis by (auto simp: run_trace_def emit_def)
qed (use v s1 in auto)

text \<open>
  Claim C9. The guards look at the truth value of what is stored. With the objects and a
  truthy service configuration obtained in the first attempt: an upload that returns a
  falsy status together with a falsy response at every call is called again in every
  iteration, \<open>MAX_HTTP_CONNECTION_RETRIES\<close> times in all; an upload that returns a falsy
  status with a truthy response is called once, and the loop sleeps through its budget
  without calling it again. In Phase B, with falsy read and write property sets and falsy
  node parameters at every call and a start command that fails with a transient error,
  the property sets and the node parameters are fetched again in every iteration.
\<close>

theorem truthiness_keyed_guards:
  "(vars = Some m \<and> m ''nodeid'' = Some nid \<and> m ''otaimagepath'' = Some p \<and>
    read_file env (abs_img_path (cwd env) p) = Inr b \<and>
    new_session env 0 = Inr () \<and> new_node env 0 = Inr () \<and> new_service env 0 = Inr () \<and>
    verify_service_exists env 0 = Inr (cfg, nm) \<and> truthy cfg \<longrightarrow>
      ((\<forall>k. returns_falsy_pair (upload_ota_image env (image_name (abs_img_path (cwd env) p)) k)) \<longrightarrow>
         count_list (run_trace env vars) (Call UploadImage) = MAX_HTTP_CONNECTION_RETRIES) \<and>
      (\<forall>st r. upload_ota_image env (image_name (abs_img_path (cwd env) p)) 0 = Inr (st, r) \<and>
          \<not> truthy st \<and> truthy r \<longrightarrow>
         count_list (run_trace env vars) (Call UploadImage) = 1 \<and>
         count_list (run_trace env vars) (Sleep 5) = MAX_HTTP_CONNECTION_RETRIES)) \<and>
   (InfoUploadSuccess \<in> set (run_trace env vars) \<and>
    response (snd (ota_upgrade env vars)) = PDict kvs \<and> map_of kvs ''image_url'' = Some u \<and>
    (\<forall>k. returns_falsy_pair (get_service_params env k)) \<and>
    (\<forall>k. returns_falsy (get_node_params env k)) \<and>
    (\<forall>k. raises_transient (start_ota env k)) \<longrightarrow>
      (\<exists>pre post. run_trace env vars = pre @ InfoUploadSuccess # post \<and>
         count_list post (Call GetServiceParams) = MAX_HTTP_CONNECTION_RETRIES \<and>
         count_list post (Call GetNodeParams) = MAX_HTTP_CONNECTION_RETRIES \<and>
         count_list post (Call StartOta) = MAX_HTTP_CONNECTION_RETRIES))"
proof -
  let ?img = "image_name (abs_img_path (cwd env) p)"
  have every: "count_list (run_trace env vars) (Call UploadImage) = MAX_HTTP_CONNECTION_RETRIES"
    if a: "vars = Some m \<and> m ''nodeid'' = Some nid \<and> m ''otaimagepath'' = Some p \<and>
      read_file env (abs_img_path (cwd env) p) = Inr b \<and>
      new_session env 0 = Inr () \<and> new_node env 0 = Inr () \<and> new_service env 0 = Inr () \<and>
      verify_service_exists env 0 = Inr (cfg, nm) \<and> truthy cfg"
      and f: "\<forall>k. returns_falsy_pair (upload_ota_image env ?img k)"
  proof -
    from a f have "count_list (trace (phaseA_result env p)) (Call UploadImage) = MAX_HTTP_CONNECTION_RETRIES \<and>
            node_object (phaseA_result env p) \<and> \<not> truthy (status (phaseA_result env p))"
      unfolding phaseA_result_def
      by (intro phaseA_upload_every_round [where cfg = cfg and nm = nm]) simp_all
    with a run_after_falsy_status [of vars m nid p env b] show ?thesis by simp
  qed
  have once: "count_list (run_trace env vars) (Call UploadImage) = 1 \<and>
         count_list (run_trace env vars) (Sleep 5) = MAX_HTTP_CONNECTION_RETRIES"
    if a: "vars = Some m \<and> m ''nodeid'' = Some nid \<and> m ''otaimagepath'' = Some p \<and>
      read_file env (abs_img_path (cwd env) p) = Inr b \<and>
      new_session env 0 = Inr () \<and> new_node env 0 = Inr () \<and> new_service env 0 = Inr () \<and>
      verify_service_exists env 0 = Inr (cfg, nm) \<and> truthy cfg"
      and h: "upload_ota_image env ?img 0 = Inr (st, r) \<and> \<not> truthy st \<and> truthy r" for st r
  proof -
    from a h have "count_list (trace (phaseA_result env p)) (Call UploadImage) = 1 \<and>
            count_list (trace (phaseA_result env p)) (Sleep 5) = MAX_HTTP_CONNECTION_RETRIES \<and>
            node_object (phaseA_result env p) \<and> \<not> truthy (status (phaseA_result env p))"
      unfolding phaseA_result_def
      by (intro phaseA_upload_once [where cfg = cfg and nm = nm and st = st and r = r]) simp_all
    with a run_after_falsy_status [of vars m nid p env b] show ?thesis by simp
  qed
  have partB: "\<exists>pre post. run_trace env vars = pre @ InfoUploadSuccess # post \<and>
         count_list post (Call GetServiceParams) = MAX_HTTP_CONNECTION_RETRIES \<and>
         count_list post (Call GetNodeParams) = MAX_HTTP_CONNECTION_RETRIES \<and>
         count_list post (Call StartOta) = MAX_HTTP_CONNECTION_RETRIES"
    if a: "InfoUploadSuccess \<in> set (run_trace env vars) \<and>
      response (snd (ota_upgrade env vars)) = PDict kvs \<and> map_of kvs ''image_url'' = Some u \<and>
      (\<forall>k. returns_falsy_pair (get_service_params env k)) \<and>
      (\<forall>k. returns_falsy (get_node_params env k)) \<and>
      (\<forall>k. raises_transient (start_ota env k))"
  proof -
    have keep: "response (phaseB_result env s1) = response s1" for s1
      using phaseB_keeps_upload [where s = "enter_phaseB (emit InfoUploadSuccess s1)" and env = env]
      by (simp add: phaseB_result_def enter_phaseB_def emit_def)
    have loop: "\<exists>ext. trace (phaseB_result env s1) = trace s1 @ InfoUploadSuccess # ext \<and>
            count_list ext (Call GetServiceParams) = MAX_HTTP_CONNECTION_RETRIES \<and>
            count_list ext (Call GetNodeParams) = MAX_HTTP_CONNECTION_RETRIES \<and>
            count_list ext (Call StartOta) = MAX_HTTP_CONNECTION_RETRIES \<and>
            ota_status (phaseB_result env s1) = PNone"
      if r: "response s1 = PDict kvs" for s1
    proof -
      let ?sB = "enter_phaseB (emit InfoUploadSuccess s1)"
      from r a dict_has_url [of kvs u]
      have "\<exists>ext. trace (retry_loop (phaseB_try env) MAX_HTTP_CONNECTION_RETRIES ?sB) = trace ?sB @ ext \<and>
            count_list ext (Call GetServiceParams) = MAX_HTTP_CONNECTION_RETRIES \<and>
            count_list ext (Call GetNodeParams) = MAX_HTTP_CONNECTION_RETRIES \<and>
            count_list ext (Call StartOta) = MAX_HTTP_CONNECTION_RETRIES \<and>
            ota_status (retry_loop (phaseB_try env) MAX_HTTP_CONNECTION_RETRIES ?sB) = PNone"
        by (intro phaseB_falsy_rounds [where u = u]) (simp_all add: emit_def enter_phaseB_def)
      then show ?thesis
        by (auto simp: phaseB_result_def emit_def enter_phaseB_def)
    qed
    show ?thesis
    proof (cases rule: run_cases [of vars env])
      case no_vars
      with a show ?thesis by (simp add: run_trace_def emit_def init_locals_def)
    next
      case (no_key m)
      with a show ?thesis by (simp add: run_trace_def emit_def init_locals_def)
    next
      case (unreadable m nid p e)
      with a show ?thesis by (simp add: run_trace_def emit_def init_locals_def)
    next
      case (no_session m nid p b)
      with a no_info_in_phaseA [of env p] show ?thesis by (simp add: run_trace_def emit_def)
    next
      case (no_status m nid p b)
      with a no_info_in_phaseA [of env p] show ?thesis by (simp add: run_trace_def emit_def)
    next
      case (bad_status m nid p b)
      with a no_info_in_phaseA [of env p] show ?thesis by (simp add: run_trace_def emit_def)
    next
      case (no_success m nid p b)
      with a no_info_in_phaseA [of env p] show ?thesis by (simp add: run_trace_def emit_def)
    next
      case (phaseB_failed m nid p b)
      let ?s1 = "phaseA_result env p"
      from phaseB_failed a keep [of ?s1] have "response ?s1 = PDict kvs" by (simp add: emit_def)
      from loop [OF this] obtain ext where
        ext: "trace (phaseB_result env ?s1) = trace ?s1 @ InfoUploadSuccess # ext"
        "count_list ext (Call GetServiceParams) = MAX_HTTP_CONNECTION_RETRIES"
        "count_list ext (Call GetNodeParams) = MAX_HTTP_CONNECTION_RETRIES"
        "count_list ext (Call StartOta) = MAX_HTTP_CONNECTION_RETRIES"
        by blast
      let ?post = "ext @ [Error UpgradeFailed]"
      from phaseB_failed ext(1) have "run_trace env vars = trace ?s1 @ InfoUploadSuccess # ?post"
        by (simp add: run_trace_def emit_def)
      moreover from ext(2,3,4) have "count_list ?post (Call GetServiceParams) = MAX_HTTP_CONNECTION_RETRIES"
        "count_list ?post (Call GetNodeParams) = MAX_HTTP_CONNECTION_RETRIES"
        "count_list ?post (Call StartOta) = MAX_HTTP_CONNECTION_RETRIES" by simp_all
      ultimately show ?thesis by blast
    next
      case (phaseB_done m nid p b)
      let ?s1 = "phaseA_result env p"
      from phaseB_done a keep [of ?s1] have "response ?s1 = PDict kvs" by simp
      from loop [OF this] have "ota_status (phaseB_result env ?s1) = PNone" by blast
      with phaseB_done show ?thesis by simp
    qed
  qed
  from every once partB show ?thesis by blast
qed

lemma run_empty_sets:
  "run_trace env_empty_sets (Some vars0) =
     [ReadFile ''/home/u/fw.bin'', Call NewSession, Call NewNode, Call NewService,
      Call VerifyService, Call UploadImage, InfoUploadSuccess,
      Call GetServiceParams, Call GetNodeParams, Call StartOta,
      Warn NetworkError, Sleep 5, RetriesLeft 4,
      Call GetServiceParams, Call GetNodeParams, Call StartOta,
      Warn NetworkError, Sleep 5, RetriesLeft 3,
      Call GetServiceParams, Call GetNodeParams, Call StartOta,
      Warn NetworkError, Sleep 5, RetriesLeft 2,
      Call GetServiceParams, Call GetNodeParams, Call StartOta,
      Warn NetworkError, Sleep 5, RetriesLeft 1,
      Call GetServiceParams, Call GetNodeParams, Call StartOta,
      Warn NetworkError, Sleep 5, Error UpgradeFailed]"
  by (simp add: run_defs env_empty_sets_def env_ok_def vars0_def)

text \<open>
  An upload answering with an empty status and an empty response, one answering with an
  empty status and a non-empty response, and a node with empty property sets and empty
  parameters whose start command never gets through.
\<close>

theorem truthiness_keyed_guards_witness:
  "count_list (run_trace env_falsy_upload (Some vars0)) (Call UploadImage) =
     MAX_HTTP_CONNECTION_RETRIES \<and>
   (count_list (run_trace env_half_upload (Some vars0)) (Call UploadImage) = 1 \<and>
    count_list (run_trace env_half_upload (Some vars0)) (Sleep 5) = MAX_HTTP_CONNECTION_RETRIES) \<and>
   (\<exists>pre post. run_trace env_empty_sets (Some vars0) = pre @ InfoUploadSuccess # post \<and>
      count_list post (Call GetServiceParams) = MAX_HTTP_CONNECTION_RETRIES \<and>
      count_list post (Call GetNodeParams) = MAX_HTTP_CONNECTION_RETRIES \<and>
      count_list post (Call StartOta) = MAX_HTTP_CONNECTION_RETRIES)"
proof -
  let ?cfg = "PDict [(''type'', PStr ''esp.service.ota'')]"
  have a: "Some vars0 = Some vars0 \<and> vars0 ''nodeid'' = Some ''N1'' \<and>
      vars0 ''otaimagepath'' = Some ''fw.bin'' \<and>
      read_file env_falsy_upload (abs_img_path (cwd env_falsy_upload) ''fw.bin'') = Inr ''0123456789'' \<and>
      new_session env_falsy_upload 0 = Inr () \<and> new_node env_falsy_upload 0 = Inr () \<and>
      new_service env_falsy_upload 0 = Inr () \<and>
      verify_service_exists env_falsy_upload 0 = Inr (?cfg, PStr ''ota'') \<and> truthy ?cfg"
    by (simp add: vars0_def env_falsy_upload_def env_ok_def)
  have f: "\<forall>k. returns_falsy_pair (upload_ota_image env_falsy_upload
      (image_name (abs_img_path (cwd env_falsy_upload) ''fw.bin'')) k)"
    by (simp add: env_falsy_upload_def returns_falsy_pair_def)
  from truthiness_keyed_guards [where env = env_falsy_upload and vars = "Some vars0" and m = vars0
      and nid = "''N1''" and p = "''fw.bin''" and b = "''0123456789''" and cfg = ?cfg
      and nm = "PStr ''ota''", THEN conjunct1, THEN mp, OF a, THEN conjunct1, THEN mp, OF f]
  have one: "count_list (run_trace env_falsy_upload (Some vars0)) (Call UploadImage) =
     MAX_HTTP_CONNECTION_RETRIES" .
  let ?r = "PDict [(''error'', PStr ''quota'')]"
  have a': "Some vars0 = Some vars0 \<and> vars0 ''nodeid'' = Some ''N1'' \<and>
      vars0 ''otaimagepath'' = Some ''fw.bin'' \<and>
      read_file env_half_upload (abs_img_path (cwd env_half_upload) ''fw.bin'') = Inr ''0123456789'' \<and>
      new_session env_half_upload 0 = Inr () \<and> new_node env_half_upload 0 = Inr () \<and>
      new_service env_half_upload 0 = Inr () \<and>
      verify_service_exists env_half_upload 0 = Inr (?cfg, PStr ''ota'') \<and> truthy ?cfg"
    by (simp add: vars0_def env_half_upload_def env_ok_def)
  have h: "upload_ota_image env_half_upload
      (image_name (abs_img_path (cwd env_half_upload) ''fw.bin'')) 0 = Inr (PStr [], ?r) \<and>
      \<not> truthy (PStr []) \<and> truthy ?r"
    by (simp add: env_half_upload_def)
  from truthiness_keyed_guards [where env = env_half_upload and vars = "Some vars0" and m = vars0
      and nid = "''N1''" and p = "''fw.bin''" and b = "''0123456789''" and cfg = ?cfg
      and nm = "PStr ''ota''", THEN conjunct1, THEN mp, OF a', THEN conjunct2] h
  have two: "count_list (run_trace env_half_upload (Some vars0)) (Call UploadImage) = 1 \<and>
    count_list (run_trace env_half_upload (Some vars0)) (Sleep 5) = MAX_HTTP_CONNECTION_RETRIES"
    by blast
  have b: "InfoUploadSuccess \<in> set (run_trace env_empty_sets (Some vars0)) \<and>
    response (snd (ota_upgrade env_empty_sets (Some vars0))) =
      PDict [(''image_url'', PStr ''https://x/y'')] \<and>
    map_of [(''image_url'', PStr ''https://x/y'')] ''image_url'' = Some (PStr ''https://x/y'') \<and>
    (\<forall>k. returns_falsy_pair (get_service_params env_empty_sets k)) \<and>
    (\<forall>k. returns_falsy (get_node_params env_empty_sets k)) \<and>
    (\<forall>k. raises_transient (start_ota env_empty_sets k))"
    by (simp add: run_empty_sets)
       (simp add: run_defs env_empty_sets_def env_ok_def vars0_def raises_transient_def
          returns_falsy_def returns_falsy_pair_def)
  from truthiness_keyed_guards [where env = env_empty_sets and vars = "Some vars0"
      and kvs = "[(''image_url'', PStr ''https://x/y'')]" and u = "PStr ''https://x/y''",
      THEN conjunct2, THEN mp, OF b]
  have three: "\<exists>pre post. run_trace env_empty_sets (Some vars0) = pre @ InfoUploadSuccess # post \<and>
      count_list post (Call GetServiceParams) = MAX_HTTP_CONNECTION_RETRIES \<and>
      count_list post (Call GetNodeParams) = MAX_HTTP_CONNECTION_RETRIES \<and>
      count_list post (Call StartOta) = MAX_HTTP_CONNECTION_RETRIES" .
  from one two three show ?thesis by (intro conjI) simp_all
qed

section \<open>Transient and fatal transport errors\<close>


















lemma cached_url [simp]: "cached st (s\<lparr>param_url_to_set := u\<rparr>) = cached st s"
  by (cases st) simp_all






end
